theory Spec2Isabelle
  imports Complex_Main "HOL-Library.Multiset"
begin

section \<open>JavaScript values\<close>

text \<open>
  The values that reach the settings schema at run time. A number is finite or one of
  the two infinities; \<open>NaN\<close> is a value of its own, as the schema library gives it a
  parsed type of its own. \<open>JOther\<close> stands for every host value whose parsed type is none
  of string, number, nan, boolean, undefined, null, array or object (functions, symbols,
  bigints, dates, maps, sets, promises). An object is its list of own properties.
\<close>

datatype jsnum = Finite real | PosInfinity | NegInfinity

datatype jsval =
    JUndefined
  | JNull
  | JBool bool
  | JNum jsnum
  | JNaN
  | JStr string
  | JArr "jsval list"
  | JObj "(string \<times> jsval) list"
  | JOther

type_synonym jsobject = "(string \<times> jsval) list"

abbreviation num :: "real \<Rightarrow> jsval" where
  "num x \<equiv> JNum (Finite x)"

datatype js_error = TypeError | Error string

text \<open>\<open>o[key]\<close> for an object given by its properties: \<open>undefined\<close> when the key is absent.\<close>

definition get_prop :: "jsobject \<Rightarrow> string \<Rightarrow> jsval" where
  "get_prop kvs k = (case map_of kvs k of None \<Rightarrow> JUndefined | Some v \<Rightarrow> v)"

text \<open>
  \<open>v.key\<close> for any value: reading a property of \<open>undefined\<close> or \<open>null\<close> throws a
  TypeError; a primitive or an array has none of the settings' keys.
\<close>

fun js_get :: "jsval \<Rightarrow> string \<Rightarrow> js_error + jsval" where
  "js_get JUndefined k = Inl TypeError"
| "js_get JNull k = Inl TypeError"
| "js_get (JObj kvs) k = Inr (get_prop kvs k)"
| "js_get v k = Inr JUndefined"

text \<open>
  \<open>a === b\<close>. \<open>NaN\<close> equals nothing; arrays, objects and other host values are compared
  by reference, which this value model does not record: two of them count as distinct.
\<close>

fun strict_eq :: "jsval \<Rightarrow> jsval \<Rightarrow> bool" where
  "strict_eq JUndefined JUndefined = True"
| "strict_eq JNull JNull = True"
| "strict_eq (JBool a) (JBool b) = (a = b)"
| "strict_eq (JNum a) (JNum b) = (a = b)"
| "strict_eq (JStr a) (JStr b) = (a = b)"
| "strict_eq a b = False"

fun truthy :: "jsval \<Rightarrow> bool" where
  "truthy JUndefined = False"
| "truthy JNull = False"
| "truthy (JBool b) = b"
| "truthy (JNum x) = (x \<noteq> Finite 0)"
| "truthy JNaN = False"
| "truthy (JStr s) = (s \<noteq> [])"
| "truthy v = True"

section \<open>The schema library (zod), as far as the settings schema uses it\<close>

datatype parsed_type =
    TString | TNan | TNumber | TBoolean | TUndefined | TNull | TArray | TObject | TOtherType

fun getParsedType :: "jsval \<Rightarrow> parsed_type" where
  "getParsedType JUndefined = TUndefined"
| "getParsedType JNull = TNull"
| "getParsedType (JBool b) = TBoolean"
| "getParsedType (JNum x) = TNumber"
| "getParsedType JNaN = TNan"
| "getParsedType (JStr s) = TString"
| "getParsedType (JArr xs) = TArray"
| "getParsedType (JObj kvs) = TObject"
| "getParsedType JOther = TOtherType"

datatype path_elem = Key string | Idx nat

datatype issue =
    InvalidType parsed_type parsed_type "path_elem list"
  | InvalidLiteral jsval "path_elem list"
  | ExternalIssue "path_elem list"

text \<open>
  A parse returns \<open>Inr value\<close> (status valid) or \<open>Inl issues\<close> (status aborted, with
  the issues added to the context). \<open>ZExternal\<close> is a schema declared in a file outside
  \<open>src/\<close> (\<open>llmProviderSchema\<close>, \<open>chatModelSchema\<close>, \<open>embeddingModelSchema\<close>,
  \<open>mcpServerConfigSchema\<close>): any function from path and input to a parse result, so one
  that returns and does not throw.
\<close>

datatype zschema =
    ZString
  | ZNumber
  | ZBoolean
  | ZLiteral jsval
  | ZArray zschema
  | ZObject "(string \<times> zschema) list"
  | ZCatch zschema jsval
  | ZExternal "path_elem list \<Rightarrow> jsval \<Rightarrow> issue list + jsval"

text \<open>
  \<open>ParseStatus.mergeArray\<close>: every element has been parsed (so every issue is recorded);
  one aborted element aborts the array.
\<close>

fun mergeArray :: "(issue list + jsval) list \<Rightarrow> issue list + jsval list" where
  "mergeArray [] = Inr []"
| "mergeArray (r # rs) =
     (case r of
        Inl e \<Rightarrow> (case mergeArray rs of Inl es \<Rightarrow> Inl (e @ es) | Inr vs \<Rightarrow> Inl e)
      | Inr v \<Rightarrow> (case mergeArray rs of Inl es \<Rightarrow> Inl es | Inr vs \<Rightarrow> Inr (v # vs)))"

text \<open>
  \<open>ParseStatus.mergeObjectSync\<close> on the pairs \<open>(key, result, alwaysSet)\<close>: a key is set
  in the output when its value is not \<open>undefined\<close> or the key was in the input
  (\<open>alwaysSet: key in ctx.data\<close>), and never when it is \<open>__proto__\<close>.
\<close>

fun mergeObjectSync :: "(string \<times> (issue list + jsval) \<times> bool) list \<Rightarrow> issue list + jsobject" where
  "mergeObjectSync [] = Inr []"
| "mergeObjectSync ((k, r, alwaysSet) # ps) =
     (case r of
        Inl e \<Rightarrow> (case mergeObjectSync ps of Inl es \<Rightarrow> Inl (e @ es) | Inr kvs \<Rightarrow> Inl e)
      | Inr v \<Rightarrow>
          (case mergeObjectSync ps of
             Inl es \<Rightarrow> Inl es
           | Inr kvs \<Rightarrow>
               Inr (if k \<noteq> ''__proto__'' \<and> (v \<noteq> JUndefined \<or> alwaysSet)
                    then (k, v) # kvs else kvs)))"

fun zparse :: "zschema \<Rightarrow> path_elem list \<Rightarrow> jsval \<Rightarrow> issue list + jsval" where
  "zparse ZString p v =
     (case v of JStr s \<Rightarrow> Inr v | _ \<Rightarrow> Inl [InvalidType TString (getParsedType v) p])"
| "zparse ZNumber p v =
     (case v of JNum x \<Rightarrow> Inr v | _ \<Rightarrow> Inl [InvalidType TNumber (getParsedType v) p])"
| "zparse ZBoolean p v =
     (case v of JBool b \<Rightarrow> Inr v | _ \<Rightarrow> Inl [InvalidType TBoolean (getParsedType v) p])"
| "zparse (ZLiteral l) p v =
     (if strict_eq v l then Inr v else Inl [InvalidLiteral l p])"
| "zparse (ZArray t) p v =
     (case v of
        JArr xs \<Rightarrow>
          map_sum id JArr
            (mergeArray (map (\<lambda>(i, x). zparse t (p @ [Idx i]) x) (enumerate 0 xs)))
      | _ \<Rightarrow> Inl [InvalidType TArray (getParsedType v) p])"
| "zparse (ZObject shape) p v =
     (case v of
        JObj kvs \<Rightarrow>
          map_sum id JObj
            (mergeObjectSync
               (map (\<lambda>(k, t). (k, zparse t (p @ [Key k]) (get_prop kvs k), k \<in> fst ` set kvs))
                  shape))
      | _ \<Rightarrow> Inl [InvalidType TObject (getParsedType v) p])"
| "zparse (ZCatch t d) p v = (case zparse t p v of Inl e \<Rightarrow> Inr d | Inr x \<Rightarrow> Inr x)"
| "zparse (ZExternal f) p v = f p v"

text \<open>\<open>schema.safeParse(data)\<close>: \<open>Inr data\<close> is \<open>{success: true, data}\<close>, \<open>Inl issues\<close> is
  \<open>{success: false, error}\<close> with \<open>error.issues = issues\<close>.\<close>

definition safeParse :: "zschema \<Rightarrow> jsval \<Rightarrow> issue list + jsval" where
  "safeParse s v = zparse s [] v"

section \<open>The settings schema (src/settings/schema/setting.types.ts)\<close>

text \<open>
  The constants and schemas that \<open>setting.types.ts\<close> imports from files outside
  \<open>src/\<close>, taken as parameters. The default model lists are arrays of objects.
\<close>

record schema_deps =
  SETTINGS_SCHEMA_VERSION :: real
  DEFAULT_PROVIDERS :: "jsval list"
  DEFAULT_CHAT_MODELS :: "jsobject list"
  DEFAULT_EMBEDDING_MODELS :: "jsobject list"
  llmProviderSchema :: "path_elem list \<Rightarrow> jsval \<Rightarrow> issue list + jsval"
  chatModelSchema :: "path_elem list \<Rightarrow> jsval \<Rightarrow> issue list + jsval"
  embeddingModelSchema :: "path_elem list \<Rightarrow> jsval \<Rightarrow> issue list + jsval"
  mcpServerConfigSchema :: "path_elem list \<Rightarrow> jsval \<Rightarrow> issue list + jsval"

definition ragOptionsDefault :: jsval where
  "ragOptionsDefault =
     JObj [(''chunkSize'', num 1000),
           (''thresholdTokens'', num 8192),
           (''minSimilarity'', num 0),
           (''limit'', num 10),
           (''excludePatterns'', JArr []),
           (''includePatterns'', JArr [])]"

definition ragOptionsSchema :: zschema where
  "ragOptionsSchema =
     ZObject [(''chunkSize'', ZCatch ZNumber (num 1000)),
              (''thresholdTokens'', ZCatch ZNumber (num 8192)),
              (''minSimilarity'', ZCatch ZNumber (num 0)),
              (''limit'', ZCatch ZNumber (num 10)),
              (''excludePatterns'', ZCatch (ZArray ZString) (JArr [])),
              (''includePatterns'', ZCatch (ZArray ZString) (JArr []))]"

text \<open>\<open>xs[0].id\<close>: a TypeError (\<open>None\<close>) when the array is empty.\<close>

definition first_id :: "jsobject list \<Rightarrow> jsval option" where
  "first_id xs = (case xs of [] \<Rightarrow> None | x # _ \<Rightarrow> Some (get_prop x ''id''))"

text \<open>
  \<open>DEFAULT_CHAT_MODELS.find((v) => v.id === 'gpt-4o-mini')?.id ?? DEFAULT_CHAT_MODELS[0].id\<close>:
  an element found has the id \<open>'gpt-4o-mini'\<close>, which is not nullish, so the right
  operand is read only when none is found.
\<close>

definition applyModelIdDefault :: "jsobject list \<Rightarrow> jsval option" where
  "applyModelIdDefault xs =
     (case find (\<lambda>v. strict_eq (get_prop v ''id'') (JStr ''gpt-4o-mini'')) xs of
        Some v \<Rightarrow> Some (get_prop v ''id'')
      | None \<Rightarrow> first_id xs)"

text \<open>
  The schema object is built when the module is loaded; \<open>None\<close> is the TypeError of
  \<open>DEFAULT_CHAT_MODELS[0].id\<close> or \<open>DEFAULT_EMBEDDING_MODELS[0].id\<close> on an empty list, after
  which there is no schema.
\<close>

definition smartComposerSettingsSchema :: "schema_deps \<Rightarrow> zschema option" where
  "smartComposerSettingsSchema d =
     (case first_id (DEFAULT_CHAT_MODELS d) of
        None \<Rightarrow> None
      | Some chatId \<Rightarrow>
     (case applyModelIdDefault (DEFAULT_CHAT_MODELS d) of
        None \<Rightarrow> None
      | Some applyId \<Rightarrow>
     (case first_id (DEFAULT_EMBEDDING_MODELS d) of
        None \<Rightarrow> None
      | Some embeddingId \<Rightarrow>
        Some (ZObject
          [(''version'',
              ZCatch (ZLiteral (num (SETTINGS_SCHEMA_VERSION d)))
                (num (SETTINGS_SCHEMA_VERSION d))),
           (''providers'',
              ZCatch (ZArray (ZExternal (llmProviderSchema d))) (JArr (DEFAULT_PROVIDERS d))),
           (''chatModels'',
              ZCatch (ZArray (ZExternal (chatModelSchema d)))
                (JArr (map JObj (DEFAULT_CHAT_MODELS d)))),
           (''embeddingModels'',
              ZCatch (ZArray (ZExternal (embeddingModelSchema d)))
                (JArr (map JObj (DEFAULT_EMBEDDING_MODELS d)))),
           (''chatModelId'', ZCatch ZString chatId),
           (''applyModelId'', ZCatch ZString applyId),
           (''embeddingModelId'', ZCatch ZString embeddingId),
           (''systemPrompt'', ZCatch ZString (JStr [])),
           (''ragOptions'', ZCatch ragOptionsSchema ragOptionsDefault),
           (''mcp'',
              ZCatch
                (ZObject
                   [(''servers'',
                       ZCatch (ZArray (ZExternal (mcpServerConfigSchema d))) (JArr []))])
                (JObj [(''servers'', JArr [])])),
           (''chatOptions'',
              ZCatch
                (ZObject
                   [(''includeCurrentFileContent'', ZBoolean),
                    (''enableTools'', ZBoolean),
                    (''maxAutoIterations'', ZNumber)])
                (JObj [(''includeCurrentFileContent'', JBool True),
                       (''enableTools'', JBool True),
                       (''maxAutoIterations'', num 1)])),
           (''editorAutocomplete'',
              ZCatch
                (ZObject
                   [(''enabled'', ZBoolean),
                    (''minChars'', ZNumber),
                    (''debounceMs'', ZNumber),
                    (''maxTokens'', ZNumber),
                    (''temperature'', ZNumber)])
                (JObj [(''enabled'', JBool True),
                       (''minChars'', num 5),
                       (''debounceMs'', num 300),
                       (''maxTokens'', num 50),
                       (''temperature'', num (2 / 10))]))]))))"

section \<open>The Azure OpenAI provider (src/core/llm/azureOpenaiProvider.ts)\<close>

record azure_provider =
  provider_id :: string
  apiKey :: "string option"
  baseUrl :: "string option"

text \<open>A rejected promise is \<open>Inl\<close> of the error thrown, a resolved one \<open>Inr\<close> of the vector.\<close>

definition getEmbedding :: "azure_provider \<Rightarrow> string \<Rightarrow> string \<Rightarrow> js_error + real list" where
  "getEmbedding provider model text' =
     Inl (Error (''Provider '' @ provider_id provider
                 @ '' does not support embeddings. Please use a different provider.''))"

section \<open>The plugin's settings (src/main.ts)\<close>

datatype notice = InvalidSettings "issue list" | AutocompleteSetupFailed

text \<open>
  The fields of \<open>SmartComposerPlugin\<close> that \<open>setSettings\<close> reads or writes.
  \<open>savedData\<close> is what \<open>saveData\<close> last persisted; \<open>ragEngine\<close> is \<open>None\<close> for \<open>null\<close> and
  otherwise holds the settings the engine was last given; a listener is known by an
  identifier, and \<open>listenerCalls\<close> records each call with its argument;
  \<open>editorAutocompleteCleanup\<close> says whether a cleanup function is held, and
  \<open>cleanupCalls\<close> counts how often one was run.
\<close>

record plugin =
  settings :: jsval
  savedData :: jsval
  ragEngine :: "jsval option"
  settingsChangeListeners :: "nat list"
  listenerCalls :: "(nat \<times> jsval) list"
  notices :: "notice list"
  editorAutocompleteCleanup :: bool
  cleanupCalls :: nat

text \<open>
  The private method \<open>setupEditorAutocomplete\<close>. The editor extension it installs is
  outside this model: \<open>setup_ok\<close> says whether installing it returns (a cleanup function)
  or throws (caught, a notice is shown).
\<close>

definition setupEditorAutocomplete :: "bool \<Rightarrow> plugin \<Rightarrow> plugin" where
  "setupEditorAutocomplete setup_ok p =
     (let p1 = (if editorAutocompleteCleanup p
                then p\<lparr>editorAutocompleteCleanup := False, cleanupCalls := cleanupCalls p + 1\<rparr>
                else p)
      in if setup_ok then p1\<lparr>editorAutocompleteCleanup := True\<rparr>
         else p1\<lparr>notices := notices p1 @ [AutocompleteSetupFailed]\<rparr>)"

text \<open>\<open>v.editorAutocomplete.enabled\<close>.\<close>

definition autocompleteEnabled :: "jsval \<Rightarrow> js_error + jsval" where
  "autocompleteEnabled v =
     (case js_get v ''editorAutocomplete'' of
        Inl e \<Rightarrow> Inl e
      | Inr a \<Rightarrow> js_get a ''enabled'')"

text \<open>
  \<open>setSettings(newSettings)\<close>. \<open>Inl\<close> is an exception thrown out of the method; the two
  property reads that can throw come before the first assignment. \<open>saveData\<close>, the
  engine's \<open>setSettings\<close> and the listeners are taken to return normally.
\<close>

definition setSettings :: "zschema \<Rightarrow> bool \<Rightarrow> plugin \<Rightarrow> jsval \<Rightarrow> js_error + plugin" where
  "setSettings schema setup_ok p newSettings =
     (case safeParse schema newSettings of
        Inl issues \<Rightarrow> Inr (p\<lparr>notices := notices p @ [InvalidSettings issues]\<rparr>)
      | Inr validated \<Rightarrow>
          (case autocompleteEnabled (settings p) of
             Inl e \<Rightarrow> Inl e
           | Inr wasAutocompleteEnabled \<Rightarrow>
          (case autocompleteEnabled newSettings of
             Inl e \<Rightarrow> Inl e
           | Inr isAutocompleteEnabled \<Rightarrow>
               (let p1 = p\<lparr>settings := newSettings,
                           savedData := newSettings,
                           ragEngine := map_option (\<lambda>old. newSettings) (ragEngine p),
                           listenerCalls := listenerCalls p
                             @ map (\<lambda>l. (l, newSettings)) (settingsChangeListeners p)\<rparr>
                in Inr (if \<not> strict_eq wasAutocompleteEnabled isAutocompleteEnabled
                        then (if truthy isAutocompleteEnabled
                              then setupEditorAutocomplete setup_ok p1
                              else if editorAutocompleteCleanup p1
                              then p1\<lparr>editorAutocompleteCleanup := False,
                                      cleanupCalls := cleanupCalls p1 + 1\<rparr>
                              else p1)
                        else p1)))))"

section \<open>Notions used to state the properties of the settings schema\<close>

fun is_catch :: "zschema \<Rightarrow> bool" where
  "is_catch (ZCatch t d) = True"
| "is_catch t = False"

text \<open>The value a schema yields on an input, \<open>undefined\<close> standing in where it has none.\<close>

definition caught :: "zschema \<Rightarrow> path_elem list \<Rightarrow> jsval \<Rightarrow> jsval" where
  "caught t p v = (case zparse t p v of Inl e \<Rightarrow> JUndefined | Inr x \<Rightarrow> x)"

text \<open>The pairs that \<open>mergeObjectSync\<close> writes into its output object.\<close>

definition kept :: "string \<times> jsval \<times> bool \<Rightarrow> bool" where
  "kept = (\<lambda>(k, v, a). k \<noteq> ''__proto__'' \<and> (v \<noteq> JUndefined \<or> a))"

definition object_pairs ::
  "(string \<times> zschema) list \<Rightarrow> path_elem list \<Rightarrow> jsobject \<Rightarrow> (string \<times> jsval \<times> bool) list" where
  "object_pairs shape p kvs =
     map (\<lambda>(k, t). (k, caught t (p @ [Key k]) (get_prop kvs k), k \<in> fst ` set kvs)) shape"

text \<open>A number field with a fallback: the input when it is a number, else the default.\<close>

definition number_or :: "jsval \<Rightarrow> real \<Rightarrow> jsval" where
  "number_or v d = (case v of JNum x \<Rightarrow> JNum x | _ \<Rightarrow> num d)"

fun is_JStr :: "jsval \<Rightarrow> bool" where
  "is_JStr (JStr s) = True"
| "is_JStr v = False"

text \<open>A pattern list with a fallback: the input when it is an array of strings, else \<open>[]\<close>.\<close>

definition strings_or_empty :: "jsval \<Rightarrow> jsval" where
  "strings_or_empty v =
     (case v of JArr xs \<Rightarrow> if list_all is_JStr xs then JArr xs else JArr [] | _ \<Rightarrow> JArr [])"

text \<open>
  What the \<open>ragOptions\<close> field is expected to parse to: field by field when the input
  is an object, the whole default otherwise.
\<close>

definition ragOptions_expected :: "jsval \<Rightarrow> jsval" where
  "ragOptions_expected v =
     (case v of
        JObj r \<Rightarrow>
          JObj [(''chunkSize'', number_or (get_prop r ''chunkSize'') 1000),
                (''thresholdTokens'', number_or (get_prop r ''thresholdTokens'') 8192),
                (''minSimilarity'', number_or (get_prop r ''minSimilarity'') 0),
                (''limit'', number_or (get_prop r ''limit'') 10),
                (''excludePatterns'', strings_or_empty (get_prop r ''excludePatterns'')),
                (''includePatterns'', strings_or_empty (get_prop r ''includePatterns''))]
      | _ \<Rightarrow> ragOptionsDefault)"

definition ragOptions_keys :: "string list" where
  "ragOptions_keys = [''chunkSize'', ''thresholdTokens'', ''minSimilarity'', ''limit'',
     ''excludePatterns'', ''includePatterns'']"

definition settings_keys :: "string list" where
  "settings_keys = [''version'', ''providers'', ''chatModels'', ''embeddingModels'',
     ''chatModelId'', ''applyModelId'', ''embeddingModelId'', ''systemPrompt'', ''ragOptions'',
     ''mcp'', ''chatOptions'', ''editorAutocomplete'']"

text \<open>
  The embedding model id with its fallback: the input when it is a string, else the
  default \<open>e\<close>.
\<close>

definition string_or :: "jsval \<Rightarrow> jsval \<Rightarrow> jsval" where
  "string_or v e = (case v of JStr s \<Rightarrow> JStr s | _ \<Rightarrow> e)"

subsection \<open>Concrete inputs for the closed examples\<close>

text \<open>An instance of the imported constants; the imported schemas accept every input.\<close>

definition example_deps :: schema_deps where
  "example_deps =
     \<lparr>SETTINGS_SCHEMA_VERSION = 1,
      DEFAULT_PROVIDERS = [],
      DEFAULT_CHAT_MODELS = [[(''id'', JStr ''gpt-4o'')], [(''id'', JStr ''gpt-4o-mini'')]],
      DEFAULT_EMBEDDING_MODELS = [[(''id'', JStr ''text-embedding-3-small'')]],
      llmProviderSchema = (\<lambda>p v. Inr v),
      chatModelSchema = (\<lambda>p v. Inr v),
      embeddingModelSchema = (\<lambda>p v. Inr v),
      mcpServerConfigSchema = (\<lambda>p v. Inr v)\<rparr>"

definition example_input :: jsobject where
  "example_input =
     [(''ragOptions'', JObj [(''chunkSize'', JStr ''big''), (''limit'', num 5),
                             (''includePatterns'', JArr [JStr ''notes/**'']),
                             (''excludePatterns'', JArr [num 1]),
                             (''extra'', JBool True)]),
      (''systemPrompt'', num 3)]"

definition example_input2 :: jsobject where
  "example_input2 =
     [(''ragOptions'', JObj [(''other'', JStr ''x''), (''limit'', num 5),
                             (''excludePatterns'', JArr [num 1]),
                             (''includePatterns'', JArr [JStr ''notes/**'']),
                             (''chunkSize'', JStr ''big'')]),
      (''embeddingModelId'', JStr ''my-model''),
      (''providers'', JNull)]"

definition example_plugin :: plugin where
  "example_plugin =
     \<lparr>settings = JObj [(''editorAutocomplete'', JObj [(''enabled'', JBool True)])],
      savedData = JObj [(''editorAutocomplete'', JObj [(''enabled'', JBool True)])],
      ragEngine = Some (JObj [(''editorAutocomplete'', JObj [(''enabled'', JBool True)])]),
      settingsChangeListeners = [0, 1],
      listenerCalls = [],
      notices = [],
      editorAutocompleteCleanup = True,
      cleanupCalls = 0\<rparr>"

section \<open>The index coordinator, modelled from the specification\<close>

text \<open>
  The RAG engine, the vector store and the embedding gateway (\<open>core/rag/ragEngine\<close>,
  \<open>database/...\<close>) are imported by \<open>main.ts\<close> but are not among the sources; \<open>main.ts\<close>
  only calls \<open>updateVaultIndex\<close>. The definitions of this section follow the
  specification's sections 3, 4.1 to 4.4 and 7 instead, and each says so.
\<close>

subsection \<open>Data model\<close>

text \<open>
  Modelled from the spec: Document \<open>{path, contentHash, mtime}\<close> of the Source Adapter,
  with the text that \<open>readContent(path)\<close> returns as the field \<open>content\<close>.
\<close>

record Document =
  path :: string
  contentHash :: string
  mtime :: nat
  content :: string

text \<open>
  Modelled from the spec: Chunk \<open>{id, documentPath, startOffset, endOffset, text,
  contentHash}\<close>; the fields \<open>id\<close>, \<open>text\<close> and \<open>contentHash\<close> are named \<open>chunkId\<close>,
  \<open>chunkText\<close> and \<open>chunkHash\<close> here.
\<close>

record Chunk =
  chunkId :: string
  documentPath :: string
  startOffset :: nat
  endOffset :: nat
  chunkText :: string
  chunkHash :: string

text \<open>
  Modelled from the spec: a row of the Vector Store, a chunk with its EmbeddingRecord
  \<open>{chunkId, vector, modelId}\<close>.
\<close>

record Row =
  rowChunk :: Chunk
  vector :: "real list"
  modelId :: string

text \<open>Modelled from the spec: IndexState \<open>{lastIndexedHash, modelId}\<close>.\<close>

record IndexState =
  lastIndexedHash :: "(string \<times> string) list"
  indexModelId :: string

text \<open>
  Modelled from the spec: the configuration surface of section 6 (\<open>chunkSize\<close>,
  \<open>thresholdTokens\<close>, \<open>minSimilarity\<close>, \<open>limit\<close>, \<open>includePatterns\<close>, \<open>excludePatterns\<close>,
  embedding \<open>modelId\<close>). The four numbers are whatever numbers the settings schema lets
  through (\<open>z.number()\<close>: negative, fractional or infinite ones too).
\<close>

record RagConfig =
  chunkSize :: jsnum
  thresholdTokens :: jsnum
  minSimilarity :: jsnum
  limit :: jsnum
  includePatterns :: "string list"
  excludePatterns :: "string list"
  embeddingModelId :: string

text \<open>Modelled from the spec: the error kinds of section 7.\<close>

datatype IndexError =
    SourceUnavailable | IndexingFailed | EmbeddingAuthOrConfig | StorageWriteFailure

text \<open>
  Modelled from the spec: what the specification leaves to the implementer or to an
  external collaborator, as parameters. \<open>globMatch pattern path\<close> is the glob matcher;
  \<open>splitText chunkSize text\<close> gives the chunk boundaries \<open>(startOffset, endOffset)\<close> and
  \<open>fingerprint\<close> the digest of a chunk's text (section 4.2 fixes neither);
  \<open>mkChunkId\<close> names a chunk; \<open>batchSize\<close> is the gateway's batch limit. The gateway's
  \<open>n\<close>-th call either fails (\<open>gatewayOutcome n = Some error\<close>, after its own retries) or
  yields one vector per text, \<open>embedVector n modelId text\<close> (section 4.4: a successful
  batch yields (chunk, vector) pairs preserving chunk identity).
\<close>

record Env =
  globMatch :: "string \<Rightarrow> string \<Rightarrow> bool"
  splitText :: "jsnum \<Rightarrow> string \<Rightarrow> (nat \<times> nat) list"
  fingerprint :: "string \<Rightarrow> string"
  mkChunkId :: "string \<Rightarrow> nat \<Rightarrow> nat \<Rightarrow> string"
  batchSize :: nat
  gatewayOutcome :: "nat \<Rightarrow> IndexError option"
  embedVector :: "nat \<Rightarrow> string \<Rightarrow> string \<Rightarrow> real list"

text \<open>
  Modelled from the spec: the engine's state. \<open>store\<close> is the Vector Store's rows,
  \<open>cache\<close> the Embedding Cache keyed by (contentHash, modelId), \<open>embedLog\<close> the batches
  handed to the gateway so far, one entry per call.
\<close>

record EngineState =
  store :: "Row list"
  cache :: "string \<times> string \<Rightarrow> real list option"
  indexState :: IndexState
  embedLog :: "Chunk list list"

text \<open>Modelled from the spec: the aggregate stats of section 4.1, step 9.\<close>

record IndexStats =
  documentsScanned :: nat
  documentsChanged :: nat
  documentsRemoved :: nat
  chunksEmbedded :: nat
  cacheHits :: nat
  stagedChunks :: nat

text \<open>
  Modelled from the spec: the cache hit rate of a run. A run that stages no chunk has
  no miss, and its rate is 100% (section 8, idempotence).
\<close>

definition cacheHitRate :: "IndexStats \<Rightarrow> real" where
  "cacheHitRate s =
     (if stagedChunks s = 0 then 1 else real (cacheHits s) / real (stagedChunks s))"

text \<open>
  Modelled from the spec: the progress \<open>{completedChunks, totalChunks,
  waitingForRateLimit}\<close> reported to \<open>onProgress\<close> (section 4.1, step 7).
\<close>

record IndexProgress =
  completedChunks :: nat
  totalChunks :: nat
  waitingForRateLimit :: bool

subsection \<open>Filters and chunker\<close>

text \<open>
  Modelled from the spec: the include/exclude glob filters. A path passes when it
  matches some include pattern, or there is none, and matches no exclude pattern.
\<close>

definition passesFilters :: "Env \<Rightarrow> RagConfig \<Rightarrow> string \<Rightarrow> bool" where
  "passesFilters env cfg p =
     ((includePatterns cfg = [] \<or> list_ex (\<lambda>pat. globMatch env pat p) (includePatterns cfg))
      \<and> \<not> list_ex (\<lambda>pat. globMatch env pat p) (excludePatterns cfg))"

text \<open>
  Modelled from the spec: \<open>chunk(document, config)\<close> of section 4.2. Each boundary pair
  of the splitting policy becomes a chunk of the document, with the text between the
  offsets and the digest of that text.
\<close>

definition chunk :: "Env \<Rightarrow> Document \<Rightarrow> RagConfig \<Rightarrow> Chunk list" where
  "chunk env d cfg =
     map (\<lambda>(s, e).
            \<lparr>chunkId = mkChunkId env (path d) s e,
             documentPath = path d,
             startOffset = s,
             endOffset = e,
             chunkText = take (e - s) (drop s (content d)),
             chunkHash = fingerprint env (take (e - s) (drop s (content d)))\<rparr>)
         (splitText env (chunkSize cfg) (content d))"

subsection \<open>State operations\<close>

text \<open>Modelled from the spec: the chunk/embedding rows owned by a path.\<close>

definition rowsOf :: "string \<Rightarrow> EngineState \<Rightarrow> Row list" where
  "rowsOf p st = filter (\<lambda>r. documentPath (rowChunk r) = p) (store st)"

text \<open>Modelled from the spec: deleting all chunk/embedding rows owned by a path
  (section 4.1, steps 3 and 4).\<close>

definition deleteRows :: "string \<Rightarrow> EngineState \<Rightarrow> EngineState" where
  "deleteRows p st = st\<lparr>store := filter (\<lambda>r. documentPath (rowChunk r) \<noteq> p) (store st)\<rparr>"

text \<open>Modelled from the spec: writing rows to the Vector Store.\<close>

definition insertRows :: "Row list \<Rightarrow> EngineState \<Rightarrow> EngineState" where
  "insertRows rs st = st\<lparr>store := store st @ rs\<rparr>"

text \<open>Modelled from the spec: \<open>lastIndexedHash[path]\<close>, absent or the recorded hash.\<close>

definition indexedHash :: "EngineState \<Rightarrow> string \<Rightarrow> string option" where
  "indexedHash st p = map_of (lastIndexedHash (indexState st)) p"

text \<open>Modelled from the spec: removing a path from \<open>lastIndexedHash\<close> (section 4.1,
  step 3).\<close>

definition dropHash :: "string \<Rightarrow> EngineState \<Rightarrow> EngineState" where
  "dropHash p st =
     st\<lparr>indexState := (indexState st)
          \<lparr>lastIndexedHash := filter (\<lambda>(q, h). q \<noteq> p) (lastIndexedHash (indexState st))\<rparr>\<rparr>"

text \<open>Modelled from the spec: \<open>lastIndexedHash[path] = newHash\<close> (section 4.1, step 8).\<close>

definition setHash :: "string \<Rightarrow> string \<Rightarrow> EngineState \<Rightarrow> EngineState" where
  "setHash p h st =
     st\<lparr>indexState := (indexState st)
          \<lparr>lastIndexedHash :=
             (p, h) # filter (\<lambda>(q, h'). q \<noteq> p) (lastIndexedHash (indexState st))\<rparr>\<rparr>"

text \<open>Modelled from the spec: \<open>put(contentHash, modelId, vector)\<close> of the Embedding Cache.\<close>

definition cachePut :: "string \<Rightarrow> string \<Rightarrow> real list \<Rightarrow> EngineState \<Rightarrow> EngineState" where
  "cachePut h m v st = st\<lparr>cache := (cache st)((h, m) \<mapsto> v)\<rparr>"

text \<open>Modelled from the spec: the row of a chunk and its vector for a model.\<close>

definition mkRow :: "string \<Rightarrow> Chunk \<Rightarrow> real list \<Rightarrow> Row" where
  "mkRow m c v = \<lparr>rowChunk = c, vector = v, modelId = m\<rparr>"

subsection \<open>The index coordinator\<close>

text \<open>
  Modelled from the spec: section 4.1, step 2. A document is changed when every
  document is to be reindexed, or it is absent from \<open>lastIndexedHash\<close>, or its hash
  differs.
\<close>

definition isChanged :: "bool \<Rightarrow> EngineState \<Rightarrow> Document \<Rightarrow> bool" where
  "isChanged reindexAll st d =
     (reindexAll \<or> indexedHash st (path d) \<noteq> Some (contentHash d))"

text \<open>
  Modelled from the spec: section 4.1, step 2. A path is removed when it is present in
  \<open>lastIndexedHash\<close> and absent from the current listing.
\<close>

definition removedPaths :: "EngineState \<Rightarrow> Document list \<Rightarrow> string list" where
  "removedPaths st listing =
     filter (\<lambda>p. p \<notin> set (map path listing)) (map fst (lastIndexedHash (indexState st)))"

text \<open>
  Modelled from the spec: section 4.1, step 8, the completion of a document's full chunk
  set: every chunk of the document has a row for the active model.
\<close>

definition isComplete :: "Env \<Rightarrow> RagConfig \<Rightarrow> EngineState \<Rightarrow> Document \<Rightarrow> bool" where
  "isComplete env cfg st d =
     list_all (\<lambda>c. c \<in> set (map rowChunk
                              (filter (\<lambda>r. modelId r = embeddingModelId cfg) (rowsOf (path d) st))))
       (chunk env d cfg)"

text \<open>
  Modelled from the spec: section 4.1, step 8. Each changed document whose chunk set is
  complete gets its hash recorded; a document with a partial chunk set does not.
\<close>

definition commitComplete ::
  "Env \<Rightarrow> RagConfig \<Rightarrow> Document list \<Rightarrow> EngineState \<Rightarrow> EngineState" where
  "commitComplete env cfg changed st =
     fold (\<lambda>d s. if isComplete env cfg s d then setHash (path d) (contentHash d) s else s)
       changed st"

text \<open>Modelled from the spec: the gateway splits the misses into batches of at most
  \<open>batchSize\<close> chunks (all in one batch when no limit is set).\<close>

function batches :: "nat \<Rightarrow> 'a list \<Rightarrow> 'a list list" where
  "batches n [] = []"
| "batches n (x # xs) =
     (if n = 0 then [x # xs] else take n (x # xs) # batches n (drop n (x # xs)))"
  by pat_completeness auto
termination
  by (relation "measure (\<lambda>(n, xs). length xs)") auto

text \<open>Modelled from the spec: the embedding capability \<open>embed(modelId, texts)\<close>, at the
  gateway's \<open>i\<close>-th call.\<close>

definition embed :: "Env \<Rightarrow> nat \<Rightarrow> string \<Rightarrow> string list \<Rightarrow> IndexError + real list list" where
  "embed env i m ts =
     (case gatewayOutcome env i of
        Some e \<Rightarrow> Inl e
      | None \<Rightarrow> Inr (map (embedVector env i m) ts))"

text \<open>
  Modelled from the spec: section 4.1, step 7. The misses are embedded batch by batch;
  as each batch completes its results are written to the Vector Store and to the
  Embedding Cache, completed documents are committed, and progress is reported (a
  completed batch is not waiting for the rate limit; the waiting and the retries are
  inside the gateway's call). A failing batch ends the embedding with its error.
\<close>

fun embedBatches ::
  "Env \<Rightarrow> RagConfig \<Rightarrow> Document list \<Rightarrow> nat \<Rightarrow> nat \<Rightarrow> Chunk list list \<Rightarrow> EngineState
     \<Rightarrow> (IndexError + IndexProgress list) \<times> EngineState" where
  "embedBatches env cfg changed done tot [] st = (Inr [], st)"
| "embedBatches env cfg changed done tot (b # bs) st =
     (let st1 = st\<lparr>embedLog := embedLog st @ [b]\<rparr> in
      case embed env (length (embedLog st)) (embeddingModelId cfg) (map chunkText b) of
        Inl e \<Rightarrow> (Inl e, st1)
      | Inr vs \<Rightarrow>
          (let st2 = insertRows (map2 (mkRow (embeddingModelId cfg)) b vs) st1;
               st3 = fold (\<lambda>(c, v). cachePut (chunkHash c) (embeddingModelId cfg) v) (zip b vs) st2;
               st4 = commitComplete env cfg changed st3
           in case embedBatches env cfg changed (done + length b) tot bs st4 of
                (Inl e, s) \<Rightarrow> (Inl e, s)
              | (Inr ps, s) \<Rightarrow>
                  (Inr (\<lparr>completedChunks = done + length b, totalChunks = tot,
                         waitingForRateLimit = False\<rparr> # ps), s)))"

text \<open>
  Modelled from the spec: section 4.1, step 1, the current listing: the documents of
  the Source Adapter that pass the include/exclude filters.
\<close>

definition currentListing :: "Env \<Rightarrow> RagConfig \<Rightarrow> Document list \<Rightarrow> Document list" where
  "currentListing env cfg docs = filter (\<lambda>d. passesFilters env cfg (path d)) docs"

text \<open>
  Modelled from the spec: section 4.1, step 5, the cache hits among the staged chunks,
  each with its cached vector for the active model.
\<close>

definition cacheHitsOf :: "EngineState \<Rightarrow> string \<Rightarrow> Chunk list \<Rightarrow> (Chunk \<times> real list) list" where
  "cacheHitsOf st m staged =
     List.map_filter (\<lambda>c. map_option (\<lambda>v. (c, v)) (cache st (chunkHash c, m))) staged"

text \<open>Modelled from the spec: section 4.1, step 5, the cache misses among the staged
  chunks.\<close>

definition cacheMissesOf :: "EngineState \<Rightarrow> string \<Rightarrow> Chunk list \<Rightarrow> Chunk list" where
  "cacheMissesOf st m staged = filter (\<lambda>c. cache st (chunkHash c, m) = None) staged"

text \<open>
  Modelled from the spec: the IndexState instance of the active vault-model pair
  (section 3: one instance per vault-model pair, each with its \<open>modelId\<close>). The
  persisted instance is that of the pair when its \<open>modelId\<close> is the configured embedding
  model; after a change of the model the pair is a new one, and its instance has no path
  yet, so that every document is absent from its \<open>lastIndexedHash\<close> (section 8, model
  switch).
\<close>

definition selectIndexState :: "RagConfig \<Rightarrow> EngineState \<Rightarrow> EngineState" where
  "selectIndexState cfg st =
     (if indexModelId (indexState st) = embeddingModelId cfg then st
      else st\<lparr>indexState := \<lparr>lastIndexedHash = [], indexModelId = embeddingModelId cfg\<rparr>\<rparr>)"

text \<open>
  Modelled from the spec: the end of a failed run (sections 4.4 and 7: no partial
  document update for the in-flight documents is committed; section 5: a document's rows
  are replaced via delete-then-insert inside one transaction). A changed document whose
  chunk set is not complete when the run fails keeps the rows it had before the run; its
  hash was not recorded. The documents already committed stay as the run left them.
\<close>

definition rollback ::
  "Env \<Rightarrow> RagConfig \<Rightarrow> Document list \<Rightarrow> EngineState \<Rightarrow> EngineState \<Rightarrow> EngineState" where
  "rollback env cfg changed prior st =
     fold (\<lambda>d s. if isComplete env cfg st d then s
                else insertRows (rowsOf (path d) prior) (deleteRows (path d) s))
       changed st"

text \<open>
  Modelled from the spec: section 4.1, steps 1 to 9, on the IndexState instance of the
  active pair and the documents the Source Adapter lists: the diff, the deletions for
  removed and for changed documents, the staging of the new chunks, the cache hits
  written directly, the misses embedded in batches, and the stats. The result is the
  stats or the error, with the state the run leaves; a run that fails leaves the
  documents it did not complete as they were. Reading a document and writing to the
  store are taken to succeed, and no cancellation is signalled.
\<close>

definition diffAndIndex ::
  "Env \<Rightarrow> RagConfig \<Rightarrow> bool \<Rightarrow> Document list \<Rightarrow> EngineState
     \<Rightarrow> (IndexError + IndexStats) \<times> EngineState" where
  "diffAndIndex env cfg reindexAll docs st0 =
     (let listing = currentListing env cfg docs;
          changed = filter (isChanged reindexAll st0) listing;
          removed = removedPaths st0 listing;
          st1 = fold (\<lambda>p s. dropHash p (deleteRows p s)) removed st0;
          staged = concat (map (\<lambda>d. chunk env d cfg) changed);
          st2 = fold (\<lambda>d s. deleteRows (path d) s) changed st1;
          m = embeddingModelId cfg;
          hits = cacheHitsOf st2 m staged;
          misses = cacheMissesOf st2 m staged;
          st3 = insertRows (map (\<lambda>(c, v). mkRow m c v) hits) st2;
          st4 = commitComplete env cfg changed st3
      in case embedBatches env cfg changed (length hits) (length staged)
                (batches (batchSize env) misses) st4 of
           (Inl e, st5) \<Rightarrow> (Inl e, rollback env cfg changed st0 st5)
         | (Inr progress, st5) \<Rightarrow>
             (Inr \<lparr>documentsScanned = length listing,
                   documentsChanged = length changed,
                   documentsRemoved = length removed,
                   chunksEmbedded = length misses,
                   cacheHits = length hits,
                   stagedChunks = length staged\<rparr>,
              st5))"

text \<open>
  Modelled from the spec: \<open>updateIndex(options, onProgress)\<close> of section 4.1, the steps
  1 to 9 on the IndexState instance of the active vault-model pair.
\<close>

definition updateIndex ::
  "Env \<Rightarrow> RagConfig \<Rightarrow> bool \<Rightarrow> Document list \<Rightarrow> EngineState
     \<Rightarrow> (IndexError + IndexStats) \<times> EngineState" where
  "updateIndex env cfg reindexAll docs st =
     diffAndIndex env cfg reindexAll docs (selectIndexState cfg st)"


subsection \<open>Notions used to state the properties of the engine\<close>

text \<open>Every changed document whose chunks are all stored has its hash recorded.\<close>

definition allCommitted :: "Env \<Rightarrow> RagConfig \<Rightarrow> Document list \<Rightarrow> EngineState \<Rightarrow> bool" where
  "allCommitted env cfg changed st =
     (\<forall>d \<in> set changed. isComplete env cfg st d \<longrightarrow> indexedHash st (path d) = Some (contentHash d))"

text \<open>
  The rows that the batches \<open>bs\<close> leave in the store when they are the gateway's calls
  number \<open>i\<close>, \<open>i + 1\<close>, ... and all succeed: each chunk with the vector that its call
  returned for its text.
\<close>

fun batchRows :: "Env \<Rightarrow> string \<Rightarrow> nat \<Rightarrow> Chunk list list \<Rightarrow> Row list" where
  "batchRows env m i [] = []"
| "batchRows env m i (b # bs) =
     map (\<lambda>c. mkRow m c (embedVector env i m (chunkText c))) b @ batchRows env m (Suc i) bs"

text \<open>
  Where the vector of a row written by a run that starts in \<open>st\<close> and ends in \<open>st'\<close>
  comes from: when the Embedding Cache of \<open>st\<close> has a vector for the chunk's hash and
  the model, the row has that vector; otherwise one of the run's calls of the gateway
  (the entries of \<open>embedLog st'\<close> from \<open>length (embedLog st)\<close> on) had the chunk in its
  batch, and the row has the vector which that call returned for the chunk's text.
\<close>

definition vectorFrom :: "Env \<Rightarrow> string \<Rightarrow> EngineState \<Rightarrow> EngineState \<Rightarrow> Row \<Rightarrow> bool" where
  "vectorFrom env m st st' r =
     (case cache st (chunkHash (rowChunk r), m) of
        Some v \<Rightarrow> vector r = v
      | None \<Rightarrow>
          list_ex (\<lambda>i. rowChunk r \<in> set (embedLog st' ! i)
                        \<and> vector r = embedVector env i m (chunkText (rowChunk r)))
            [length (embedLog st) ..< length (embedLog st')])"

subsection \<open>Concrete inputs for the closed examples of the engine\<close>

text \<open>
  An instance of the engine's parameters: a glob matches the path equal to it, a text
  longer than a finite \<open>chunkSize\<close> is split in two at it, the digest of a text is the
  text, the gateway takes batches of two and never fails; the vector of a text records
  its length and the number of the call.
\<close>

definition example_env :: Env where
  "example_env =
     \<lparr>globMatch = (\<lambda>pat p. pat = p),
      splitText = (\<lambda>n t. case n of
                     Finite x \<Rightarrow>
                       if real (length t) \<le> x then [(0, length t)]
                       else [(0, nat \<lfloor>x\<rfloor>), (nat \<lfloor>x\<rfloor>, length t)]
                   | _ \<Rightarrow> [(0, length t)]),
      fingerprint = (\<lambda>t. t),
      mkChunkId = (\<lambda>p s e. p),
      batchSize = 2,
      gatewayOutcome = (\<lambda>i. None),
      embedVector = (\<lambda>i m t. [real (length t), real i])\<rparr>"

definition example_cfg :: RagConfig where
  "example_cfg = \<lparr>chunkSize = Finite 2, thresholdTokens = Finite 8192,
     minSimilarity = Finite 0, limit = Finite 10,
     includePatterns = [], excludePatterns = [], embeddingModelId = ''m''\<rparr>"

definition docA :: Document where
  "docA = \<lparr>path = ''A'', contentHash = ''h1'', mtime = 0, content = ''aaaa''\<rparr>"

definition docC :: Document where
  "docC = \<lparr>path = ''C'', contentHash = ''h3'', mtime = 0, content = ''ccc''\<rparr>"

definition chunkOf :: "string \<Rightarrow> nat \<Rightarrow> nat \<Rightarrow> string \<Rightarrow> Chunk" where
  "chunkOf p s e t = \<lparr>chunkId = p, documentPath = p, startOffset = s, endOffset = e,
     chunkText = t, chunkHash = t\<rparr>"

text \<open>
  The state after the documents \<open>A\<close> (hash \<open>h1\<close>, text \<open>aaaa\<close>) and \<open>B\<close> (hash \<open>h2\<close>,
  text \<open>bb\<close>) have been indexed for the model \<open>m\<close>, in the gateway's calls 0 and 1.
\<close>

definition indexed_AB :: EngineState where
  "indexed_AB =
     \<lparr>store = [mkRow ''m'' (chunkOf ''A'' 0 2 ''aa'') [2, 0],
               mkRow ''m'' (chunkOf ''A'' 2 4 ''aa'') [2, 0],
               mkRow ''m'' (chunkOf ''B'' 0 2 ''bb'') [2, 1]],
      cache = (\<lambda>k. if k = (''aa'', ''m'') then Some [2, 0]
                   else if k = (''bb'', ''m'') then Some [2, 1] else None),
      indexState = \<lparr>lastIndexedHash = [(''B'', ''h2''), (''A'', ''h1'')], indexModelId = ''m''\<rparr>,
      embedLog = [[chunkOf ''A'' 0 2 ''aa'', chunkOf ''A'' 2 4 ''aa''], [chunkOf ''B'' 0 2 ''bb'']]\<rparr>"

text \<open>The same configuration after the embedding model has been changed to \<open>n\<close>.\<close>

definition switched_cfg :: RagConfig where
  "switched_cfg = \<lparr>chunkSize = Finite 2, thresholdTokens = Finite 8192,
     minSimilarity = Finite 0, limit = Finite 10,
     includePatterns = [], excludePatterns = [], embeddingModelId = ''n''\<rparr>"

text \<open>The same parameters with a gateway that rejects every call.\<close>

definition failing_env :: Env where
  "failing_env = example_env\<lparr>gatewayOutcome := (\<lambda>i. Some EmbeddingAuthOrConfig)\<rparr>"

text \<open>The document \<open>A\<close> after an edit: its second half is new text.\<close>

definition docA_edited :: Document where
  "docA_edited = \<lparr>path = ''A'', contentHash = ''h9'', mtime = 1, content = ''aaxx''\<rparr>"

section \<open>Properties of the schema library\<close>

lemma zparse_catch_Inr: "is_catch t \<Longrightarrow> zparse t p v = Inr (caught t p v)"
  by (cases t) (auto simp: caught_def split: sum.splits)

lemma mergeObjectSync_all_valid:
  "mergeObjectSync (map (\<lambda>(k, v, a). (k, Inr v, a)) xs)
     = Inr (map (\<lambda>(k, v, a). (k, v)) (filter kept xs))"
  by (induction xs) (auto simp: kept_def split: if_splits)

lemma zparse_all_catch_object:
  assumes "list_all (\<lambda>(k, t). is_catch t) shape"
  shows "zparse (ZObject shape) p (JObj kvs)
           = Inr (JObj (map (\<lambda>(k, v, a). (k, v)) (filter kept (object_pairs shape p kvs))))"
proof -
  have "map (\<lambda>(k, t). (k, zparse t (p @ [Key k]) (get_prop kvs k), k \<in> fst ` set kvs)) shape
        = map (\<lambda>(k, v, a). (k, Inr v, a)) (object_pairs shape p kvs)"
    using assms by (induction shape) (auto simp: object_pairs_def zparse_catch_Inr)
  then show ?thesis by (simp add: mergeObjectSync_all_valid)
qed

lemma map_of_kept:
  "distinct (map fst xs) \<Longrightarrow>
   map_of (map (\<lambda>(k, v, a). (k, v)) (filter P xs)) k
     = (case map_of xs k of None \<Rightarrow> None | Some (v, a) \<Rightarrow> if P (k, v, a) then Some v else None)"
proof (induction xs)
  case Nil then show ?case by simp
next
  case (Cons x xs)
  obtain k' v a where x: "x = (k', v, a)" by (cases x)
  from Cons.prems have nk: "k' \<notin> fst ` set xs" and d: "distinct (map fst xs)" by (auto simp: x)
  have none: "map_of xs k' = None" using nk by (simp add: map_of_eq_None_iff)
  show ?case using Cons.IH[OF d] none by (auto simp: x split: option.splits)
qed

lemma zparse_catch_number: "zparse (ZCatch ZNumber (num d)) p v = Inr (number_or v d)"
  by (cases v) (simp_all add: number_or_def)

lemma mergeArray_map_valid:
  "(\<And>y. y \<in> set ys \<Longrightarrow> f y = Inr (g y)) \<Longrightarrow> mergeArray (map f ys) = Inr (map g ys)"
  by (induction ys) simp_all

lemma mergeArray_map_invalid:
  "y \<in> set ys \<Longrightarrow> isl (f y) \<Longrightarrow> isl (mergeArray (map f ys))"
  by (induction ys) (auto split: sum.splits)

lemma zparse_string_iff: "zparse ZString p v = Inr v' \<longleftrightarrow> is_JStr v \<and> v' = v"
  by (cases v) auto

lemma zparse_string_invalid: "\<not> is_JStr v \<Longrightarrow> isl (zparse ZString p v)"
  by (cases v) auto

lemma zparse_string_array_valid:
  assumes "list_all is_JStr xs"
  shows "zparse (ZArray ZString) p (JArr xs) = Inr (JArr xs)"
proof -
  have "mergeArray (map (\<lambda>(i, x). zparse ZString (p @ [Idx i]) x) (enumerate 0 xs))
          = Inr (map snd (enumerate 0 xs))"
  proof (rule mergeArray_map_valid)
    fix y assume "y \<in> set (enumerate 0 xs)"
    then have "snd y \<in> snd ` set (enumerate 0 xs)" by (rule imageI)
    also have "snd ` set (enumerate 0 xs) = set (map snd (enumerate 0 xs))"
      by (simp only: set_map)
    also have "\<dots> = set xs" by (simp only: map_snd_enumerate)
    finally have "snd y \<in> set xs" .
    with assms have "is_JStr (snd y)" by (simp add: list_all_iff)
    then show "(case y of (i, x) \<Rightarrow> zparse ZString (p @ [Idx i]) x) = Inr (snd y)"
      by (cases y) (simp add: zparse_string_iff del: zparse.simps)
  qed
  then show ?thesis by (simp del: zparse.simps(1) add: map_snd_enumerate)
qed

lemma zparse_string_array_invalid:
  assumes "\<not> list_all is_JStr xs"
  shows "isl (zparse (ZArray ZString) p (JArr xs))"
proof -
  from assms obtain i where i: "i < length xs" "\<not> is_JStr (xs ! i)"
    by (auto simp: list_all_iff in_set_conv_nth)
  have mem: "(i, xs ! i) \<in> set (enumerate 0 xs)" using i by (simp add: in_set_enumerate_eq)
  have "isl (mergeArray (map (\<lambda>(i, x). zparse ZString (p @ [Idx i]) x) (enumerate 0 xs)))"
    by (rule mergeArray_map_invalid[OF mem]) (simp add: zparse_string_invalid i del: zparse.simps)
  then show ?thesis by (simp del: zparse.simps(1) add: isl_map_sum)
qed

lemma zparse_catch_strings:
  "zparse (ZCatch (ZArray ZString) (JArr [])) p v = Inr (strings_or_empty v)"
proof (cases v)
  case (JArr xs)
  show ?thesis
  proof (cases "list_all is_JStr xs")
    case True
    then show ?thesis
      by (simp add: JArr strings_or_empty_def zparse_string_array_valid del: zparse.simps(5))
  next
    case False
    from zparse_string_array_invalid[OF False, of p]
    obtain e where "zparse (ZArray ZString) p (JArr xs) = Inl e" by (auto simp: isl_def)
    then show ?thesis using False by (simp add: JArr strings_or_empty_def del: zparse.simps(5))
  qed
qed (simp_all add: strings_or_empty_def)

lemma number_or_defined: "number_or v d \<noteq> JUndefined"
  by (cases v) (simp_all add: number_or_def)

lemma strings_or_empty_defined: "strings_or_empty v \<noteq> JUndefined"
  by (cases v) (simp_all add: strings_or_empty_def)

lemma zparse_ragOptions_object:
  "zparse ragOptionsSchema p (JObj r) = Inr (ragOptions_expected (JObj r))"
  unfolding ragOptionsSchema_def ragOptions_expected_def
  by (simp add: zparse_catch_number zparse_catch_strings number_or_defined
        strings_or_empty_defined del: zparse.simps(7))

lemma zparse_ragOptions_catch:
  "zparse (ZCatch ragOptionsSchema ragOptionsDefault) p v = Inr (ragOptions_expected v)"
proof (cases v)
  case (JObj r)
  then show ?thesis by (simp add: zparse_ragOptions_object)
qed (simp_all add: ragOptionsSchema_def ragOptions_expected_def)

lemma map_fst_object_pairs: "map fst (object_pairs shape p kvs) = map fst shape"
  by (induction shape) (auto simp: object_pairs_def)

lemma map_of_object_pairs:
  "distinct (map fst shape) \<Longrightarrow> (k, t) \<in> set shape \<Longrightarrow>
   map_of (object_pairs shape p kvs) k
     = Some (caught t (p @ [Key k]) (get_prop kvs k), k \<in> fst ` set kvs)"
proof (induction shape)
  case Nil then show ?case by simp
next
  case (Cons x shape)
  obtain k' t' where x: "x = (k', t')" by (cases x)
  show ?case
  proof (cases "k = k'")
    case True
    with Cons.prems have "t = t'" by (auto simp: x image_iff)
    then show ?thesis using True by (simp add: x object_pairs_def)
  next
    case False
    with Cons have "map_of (object_pairs shape p kvs) k
        = Some (caught t (p @ [Key k]) (get_prop kvs k), k \<in> fst ` set kvs)"
      by (auto simp: x)
    then show ?thesis using False by (simp add: x object_pairs_def)
  qed
qed

lemma all_catch_object_get:
  assumes "distinct (map fst shape)" and "(k, t) \<in> set shape" and "k \<noteq> ''__proto__''"
  shows "get_prop (map (\<lambda>(k, v, a). (k, v)) (filter kept (object_pairs shape p kvs))) k
           = caught t (p @ [Key k]) (get_prop kvs k)"
proof -
  have d: "distinct (map fst (object_pairs shape p kvs))"
    using assms(1) by (simp add: map_fst_object_pairs)
  show ?thesis
    unfolding get_prop_def map_of_kept[OF d] map_of_object_pairs[OF assms(1,2)]
    using assms(3) by (simp add: kept_def)
qed

lemma caught_catch:
  "caught (ZCatch t dflt) p v = (case zparse t p v of Inl e \<Rightarrow> dflt | Inr x \<Rightarrow> x)"
  by (simp add: caught_def split: sum.splits)

lemma settings_schema_shape:
  assumes "smartComposerSettingsSchema d = Some S"
  obtains shape where "S = ZObject shape"
    and "list_all (\<lambda>(k, t). is_catch t) shape"
    and "map fst shape = settings_keys"
    and "(''ragOptions'', ZCatch ragOptionsSchema ragOptionsDefault) \<in> set shape"
    and "\<exists>e. first_id (DEFAULT_EMBEDDING_MODELS d) = Some e
             \<and> (''embeddingModelId'', ZCatch ZString e) \<in> set shape"
  using assms unfolding smartComposerSettingsSchema_def settings_keys_def
  by (auto split: option.splits)

lemma settings_keys_distinct: "distinct settings_keys" "''__proto__'' \<notin> set settings_keys"
  by (simp_all add: settings_keys_def)

lemma settings_parse_succeeds:
  assumes "smartComposerSettingsSchema d = Some S"
  shows "\<exists>out. safeParse S (JObj kvs) = Inr (JObj out)"
proof -
  from assms obtain shape where S: "S = ZObject shape"
    and ac: "list_all (\<lambda>(k, t). is_catch t) shape"
    by (rule settings_schema_shape)
  show ?thesis unfolding safeParse_def S using zparse_all_catch_object[OF ac] by blast
qed

lemma settings_parse_field:
  assumes "smartComposerSettingsSchema d = Some (ZObject shape)"
    and "safeParse (ZObject shape) (JObj kvs) = Inr (JObj out)"
    and "(k, t) \<in> set shape"
  shows "get_prop out k = caught t [Key k] (get_prop kvs k)"
proof -
  from assms(1) obtain shape' where S: "ZObject shape = ZObject shape'"
    and ac: "list_all (\<lambda>(k, t). is_catch t) shape'"
    and keys: "map fst shape' = settings_keys"
    by (rule settings_schema_shape)
  from S have eq: "shape' = shape" by simp
  have dist: "distinct (map fst shape)" using keys settings_keys_distinct by (simp add: eq)
  from assms(3) have "k \<in> set (map fst shape)" by force
  then have "k \<in> set settings_keys" using keys by (simp only: eq)
  then have np: "k \<noteq> ''__proto__''" using settings_keys_distinct(2) by blast
  have "out = map (\<lambda>(k, v, a). (k, v)) (filter kept (object_pairs shape [] kvs))"
    using assms(2) zparse_all_catch_object[OF ac, of "[]" kvs] by (simp add: safeParse_def eq)
  with all_catch_object_get[OF dist assms(3) np, of "[]" kvs] show ?thesis by simp
qed

lemma settings_parse_ragOptions:
  assumes "smartComposerSettingsSchema d = Some S"
    and "safeParse S (JObj kvs) = Inr (JObj out)"
  shows "get_prop out ''ragOptions'' = ragOptions_expected (get_prop kvs ''ragOptions'')"
proof -
  from assms(1) obtain shape where S: "S = ZObject shape"
    and rag: "(''ragOptions'', ZCatch ragOptionsSchema ragOptionsDefault) \<in> set shape"
    by (rule settings_schema_shape)
  from settings_parse_field[OF assms(1)[unfolded S] assms(2)[unfolded S] rag]
    zparse_ragOptions_catch[of "[Key ''ragOptions'']" "get_prop kvs ''ragOptions''"]
  show ?thesis by (simp add: caught_def del: zparse.simps)
qed

lemma zparse_catch_string: "zparse (ZCatch ZString e) p v = Inr (string_or v e)"
  by (cases v) (simp_all add: string_or_def)

lemma settings_parse_embeddingModelId:
  assumes "smartComposerSettingsSchema d = Some S"
    and "safeParse S (JObj kvs) = Inr (JObj out)"
  shows "\<exists>e. first_id (DEFAULT_EMBEDDING_MODELS d) = Some e
           \<and> get_prop out ''embeddingModelId'' = string_or (get_prop kvs ''embeddingModelId'') e"
proof -
  from assms(1) obtain shape e where S: "S = ZObject shape"
    and e: "first_id (DEFAULT_EMBEDDING_MODELS d) = Some e"
    and emb: "(''embeddingModelId'', ZCatch ZString e) \<in> set shape"
    by (rule settings_schema_shape) blast
  from settings_parse_field[OF assms(1)[unfolded S] assms(2)[unfolded S] emb]
    zparse_catch_string[of e "[Key ''embeddingModelId'']" "get_prop kvs ''embeddingModelId''"]
  have "get_prop out ''embeddingModelId'' = string_or (get_prop kvs ''embeddingModelId'') e"
    by (simp add: caught_def del: zparse.simps)
  with e show ?thesis by blast
qed

lemma number_or_is_number: "\<exists>x. number_or v d = JNum x"
  by (cases v) (simp_all add: number_or_def)

lemma all_strings: "list_all is_JStr xs \<Longrightarrow> \<exists>ss. xs = map JStr ss"
proof (induction xs)
  case Nil then show ?case by simp
next
  case (Cons x xs)
  then obtain ss where "xs = map JStr ss" by auto
  moreover from Cons.prems obtain s where "x = JStr s" by (cases x) auto
  ultimately have "x # xs = map JStr (s # ss)" by simp
  then show ?case by (rule exI[of _ "s # ss"])
qed

lemma strings_or_empty_is_strings: "\<exists>ss. strings_or_empty v = JArr (map JStr ss)"
proof (cases v)
  case (JArr xs)
  show ?thesis
  proof (cases "list_all is_JStr xs")
    case True
    from all_strings[OF True] show ?thesis by (auto simp: JArr strings_or_empty_def True)
  next
    case False
    have "strings_or_empty v = JArr (map JStr [])" using False by (simp add: JArr strings_or_empty_def)
    then show ?thesis by blast
  qed
next
  case JUndefined
  have "strings_or_empty v = JArr (map JStr [])" by (simp add: JUndefined strings_or_empty_def)
  then show ?thesis by blast
next
  case JNull
  have "strings_or_empty v = JArr (map JStr [])" by (simp add: JNull strings_or_empty_def)
  then show ?thesis by blast
next
  case (JBool b)
  have "strings_or_empty v = JArr (map JStr [])" by (simp add: JBool strings_or_empty_def)
  then show ?thesis by blast
next
  case (JNum x)
  have "strings_or_empty v = JArr (map JStr [])" by (simp add: JNum strings_or_empty_def)
  then show ?thesis by blast
next
  case JNaN
  have "strings_or_empty v = JArr (map JStr [])" by (simp add: JNaN strings_or_empty_def)
  then show ?thesis by blast
next
  case (JStr s)
  have "strings_or_empty v = JArr (map JStr [])" by (simp add: JStr strings_or_empty_def)
  then show ?thesis by blast
next
  case (JObj r)
  have "strings_or_empty v = JArr (map JStr [])" by (simp add: JObj strings_or_empty_def)
  then show ?thesis by blast
next
  case JOther
  have "strings_or_empty v = JArr (map JStr [])" by (simp add: JOther strings_or_empty_def)
  then show ?thesis by blast
qed

lemma ragOptions_expected_agree:
  assumes "\<forall>k \<in> set ragOptions_keys. get_prop r k = get_prop r' k"
  shows "ragOptions_expected (JObj r) = ragOptions_expected (JObj r')"
  using assms by (simp add: ragOptions_expected_def ragOptions_keys_def)

lemma example_schema_loads: "smartComposerSettingsSchema example_deps \<noteq> None"
  by (simp add: smartComposerSettingsSchema_def example_deps_def first_id_def
      applyModelIdDefault_def get_prop_def)

lemma non_object_rejected:
  assumes "smartComposerSettingsSchema d = Some S" and "getParsedType v \<noteq> TObject"
  shows "safeParse S v = Inl [InvalidType TObject (getParsedType v) []]"
proof -
  from assms(1) obtain shape where S: "S = ZObject shape" by (rule settings_schema_shape)
  show ?thesis using assms(2) by (cases v) (simp_all add: S safeParse_def)
qed


section \<open>The settings schema: results\<close>

text \<open>
  C10. As stated (parsing with \<open>smartComposerSettingsSchema\<close> succeeds for every input
  value) the claim fails: the outer \<open>z.object\<close> has no fallback of its own, and an input
  that is not an object is rejected. What holds: for every input that is an object,
  whatever its fields, parsing succeeds; every field of the schema is a \<open>.catch\<close>, and
  the parsed value of each field is the inner schema's result when the inner schema
  accepts the field's input, and the declared default otherwise; in particular
  \<open>ragOptions\<close> falls back to chunkSize 1000, thresholdTokens 8192, minSimilarity 0,
  limit 10 and empty pattern lists, field by field when it is an object and as a whole
  when it is not. An input that is not an object fails the validation with one issue.
\<close>

theorem settings_parse_total_on_objects:
  assumes "smartComposerSettingsSchema d = Some S"
  shows "\<exists>shape out. S = ZObject shape \<and> safeParse S (JObj kvs) = Inr (JObj out)
           \<and> (\<forall>(k, t) \<in> set shape. \<exists>t' dflt. t = ZCatch t' dflt
                 \<and> get_prop out k
                     = (case zparse t' [Key k] (get_prop kvs k) of Inl e \<Rightarrow> dflt | Inr x \<Rightarrow> x))
           \<and> get_prop out ''ragOptions'' = ragOptions_expected (get_prop kvs ''ragOptions'')
           \<and> (\<forall>v. getParsedType v \<noteq> TObject \<longrightarrow>
                  safeParse S v = Inl [InvalidType TObject (getParsedType v) []])"
proof -
  from assms obtain shape where S: "S = ZObject shape"
    and ac: "list_all (\<lambda>(k, t). is_catch t) shape"
    by (rule settings_schema_shape)
  have rej: "\<forall>v. getParsedType v \<noteq> TObject \<longrightarrow>
                  safeParse S v = Inl [InvalidType TObject (getParsedType v) []]"
    using non_object_rejected[OF assms] by blast
  from settings_parse_succeeds[OF assms] obtain out
    where parse: "safeParse S (JObj kvs) = Inr (JObj out)" by blast
  have fields: "\<forall>(k, t) \<in> set shape. \<exists>t' dflt. t = ZCatch t' dflt
                 \<and> get_prop out k
                     = (case zparse t' [Key k] (get_prop kvs k) of Inl e \<Rightarrow> dflt | Inr x \<Rightarrow> x)"
  proof (clarify)
    fix k t assume kt: "(k, t) \<in> set shape"
    with ac have "is_catch t" by (auto simp: list_all_iff)
    then obtain t' dflt where t: "t = ZCatch t' dflt" by (cases t) auto
    show "\<exists>t' dflt. t = ZCatch t' dflt
            \<and> get_prop out k
                = (case zparse t' [Key k] (get_prop kvs k) of Inl e \<Rightarrow> dflt | Inr x \<Rightarrow> x)"
      using settings_parse_field[OF assms[unfolded S] parse[unfolded S] kt]
      by (auto simp: t caught_catch simp del: zparse.simps)
  qed
  from settings_parse_ragOptions[OF assms parse] S parse fields rej show ?thesis by blast
qed

theorem settings_parse_total_on_objects_witness:
  "smartComposerSettingsSchema example_deps \<noteq> None
   \<and> (\<exists>out. safeParse (the (smartComposerSettingsSchema example_deps)) (JObj example_input)
               = Inr (JObj out)
          \<and> get_prop out ''ragOptions''
              = JObj [(''chunkSize'', num 1000), (''thresholdTokens'', num 8192),
                      (''minSimilarity'', num 0), (''limit'', num 5),
                      (''excludePatterns'', JArr []),
                      (''includePatterns'', JArr [JStr ''notes/**''])])"
proof -
  obtain S where S: "smartComposerSettingsSchema example_deps = Some S"
    using example_schema_loads by auto
  have "ragOptions_expected (get_prop example_input ''ragOptions'')
          = JObj [(''chunkSize'', num 1000), (''thresholdTokens'', num 8192),
                  (''minSimilarity'', num 0), (''limit'', num 5),
                  (''excludePatterns'', JArr []),
                  (''includePatterns'', JArr [JStr ''notes/**''])]"
    by (simp add: example_input_def ragOptions_expected_def get_prop_def number_or_def
        strings_or_empty_def)
  with settings_parse_total_on_objects[OF S, of example_input] show ?thesis
    by (auto simp: S)
qed

text \<open>The input \<open>null\<close> is rejected: one issue, expected object, received null.\<close>

theorem settings_parse_null_counterexample:
  "smartComposerSettingsSchema example_deps \<noteq> None
   \<and> safeParse (the (smartComposerSettingsSchema example_deps)) JNull
       = Inl [InvalidType TObject TNull []]"
proof -
  obtain S where S: "smartComposerSettingsSchema example_deps = Some S"
    using example_schema_loads by auto
  from non_object_rejected[OF S, of JNull] show ?thesis by (simp add: S)
qed

text \<open>
  The part of the settings that configures retrieval, as the schema delivers it (what
  the RAG engine reads of the settings that \<open>main.ts\<close> hands to it is not among the
  sources). Every settings object parses to a value whose \<open>ragOptions\<close> consists of exactly the six fields chunkSize, thresholdTokens,
  minSimilarity, limit, excludePatterns and includePatterns (four numbers and two lists
  of strings), and whose \<open>embeddingModelId\<close>, a field of the settings beside
  \<open>ragOptions\<close>, is the input's string or the id of the first default embedding model.
  No other key under \<open>ragOptions\<close> has any influence: two settings objects whose
  \<open>ragOptions\<close> agree on the six fields parse to the same \<open>ragOptions\<close>.
\<close>

lemma ragOptions_parse_shape:
  assumes "smartComposerSettingsSchema d = Some S"
  shows "\<exists>out cs tt ms lim ex inc e.
           safeParse S (JObj kvs) = Inr (JObj out)
         \<and> get_prop out ''ragOptions''
             = JObj [(''chunkSize'', JNum cs), (''thresholdTokens'', JNum tt),
                     (''minSimilarity'', JNum ms), (''limit'', JNum lim),
                     (''excludePatterns'', JArr (map JStr ex)),
                     (''includePatterns'', JArr (map JStr inc))]
         \<and> first_id (DEFAULT_EMBEDDING_MODELS d) = Some e
         \<and> get_prop out ''embeddingModelId'' = string_or (get_prop kvs ''embeddingModelId'') e
         \<and> (\<forall>kvs' r r'.
               get_prop kvs ''ragOptions'' = JObj r \<longrightarrow>
               get_prop kvs' ''ragOptions'' = JObj r' \<longrightarrow>
               (\<forall>k \<in> set ragOptions_keys. get_prop r k = get_prop r' k) \<longrightarrow>
               (\<exists>out'. safeParse S (JObj kvs') = Inr (JObj out')
                  \<and> get_prop out' ''ragOptions'' = get_prop out ''ragOptions''))"
proof -
  from settings_parse_succeeds[OF assms] obtain out
    where parse: "safeParse S (JObj kvs) = Inr (JObj out)" by blast
  have rag: "get_prop out ''ragOptions'' = ragOptions_expected (get_prop kvs ''ragOptions'')"
    by (rule settings_parse_ragOptions[OF assms parse])
  have "\<exists>cs tt ms lim ex inc. ragOptions_expected v
          = JObj [(''chunkSize'', JNum cs), (''thresholdTokens'', JNum tt),
                  (''minSimilarity'', JNum ms), (''limit'', JNum lim),
                  (''excludePatterns'', JArr (map JStr ex)),
                  (''includePatterns'', JArr (map JStr inc))]" for v
  proof (cases "\<exists>r. v = JObj r")
    case True
    then obtain r where v: "v = JObj r" by blast
    obtain cs where cs: "number_or (get_prop r ''chunkSize'') 1000 = JNum cs"
      using number_or_is_number by blast
    obtain tt where tt: "number_or (get_prop r ''thresholdTokens'') 8192 = JNum tt"
      using number_or_is_number by blast
    obtain ms where ms: "number_or (get_prop r ''minSimilarity'') 0 = JNum ms"
      using number_or_is_number by blast
    obtain lim where lim: "number_or (get_prop r ''limit'') 10 = JNum lim"
      using number_or_is_number by blast
    obtain ex where ex: "strings_or_empty (get_prop r ''excludePatterns'') = JArr (map JStr ex)"
      using strings_or_empty_is_strings by blast
    obtain inc where inc: "strings_or_empty (get_prop r ''includePatterns'') = JArr (map JStr inc)"
      using strings_or_empty_is_strings by blast
    show ?thesis unfolding v ragOptions_expected_def jsval.case cs tt ms lim ex inc by blast
  next
    case False
    then have "ragOptions_expected v
        = JObj [(''chunkSize'', num 1000), (''thresholdTokens'', num 8192),
                (''minSimilarity'', num 0), (''limit'', num 10),
                (''excludePatterns'', JArr (map JStr [])),
                (''includePatterns'', JArr (map JStr []))]"
      by (cases v) (simp_all add: ragOptions_expected_def ragOptionsDefault_def)
    then show ?thesis by blast
  qed
  then obtain cs tt ms lim ex inc where shape: "get_prop out ''ragOptions''
          = JObj [(''chunkSize'', JNum cs), (''thresholdTokens'', JNum tt),
                  (''minSimilarity'', JNum ms), (''limit'', JNum lim),
                  (''excludePatterns'', JArr (map JStr ex)),
                  (''includePatterns'', JArr (map JStr inc))]"
    unfolding rag by blast
  from settings_parse_embeddingModelId[OF assms parse] obtain e
    where e: "first_id (DEFAULT_EMBEDDING_MODELS d) = Some e"
      "get_prop out ''embeddingModelId'' = string_or (get_prop kvs ''embeddingModelId'') e"
    by blast
  have other: "\<exists>out'. safeParse S (JObj kvs') = Inr (JObj out')
                  \<and> get_prop out' ''ragOptions'' = get_prop out ''ragOptions''"
    if "get_prop kvs ''ragOptions'' = JObj r" "get_prop kvs' ''ragOptions'' = JObj r'"
      "\<forall>k \<in> set ragOptions_keys. get_prop r k = get_prop r' k" for kvs' r r'
  proof -
    from settings_parse_succeeds[OF assms] obtain out'
      where parse': "safeParse S (JObj kvs') = Inr (JObj out')" by blast
    have "get_prop out' ''ragOptions'' = ragOptions_expected (JObj r')"
      using settings_parse_ragOptions[OF assms parse'] that(2) by simp
    also have "\<dots> = ragOptions_expected (JObj r)"
      using ragOptions_expected_agree[OF that(3)] by simp
    also have "\<dots> = get_prop out ''ragOptions''" using rag that(1) by simp
    finally show ?thesis using parse' by blast
  qed
  from parse shape e other show ?thesis by blast
qed

lemma ragOptions_parse_shape_example:
  "smartComposerSettingsSchema example_deps \<noteq> None
   \<and> (\<exists>out out'.
        safeParse (the (smartComposerSettingsSchema example_deps)) (JObj example_input)
          = Inr (JObj out)
      \<and> get_prop out ''ragOptions''
          = JObj [(''chunkSize'', num 1000), (''thresholdTokens'', num 8192),
                  (''minSimilarity'', num 0), (''limit'', num 5),
                  (''excludePatterns'', JArr []),
                  (''includePatterns'', JArr [JStr ''notes/**''])]
      \<and> get_prop out ''embeddingModelId'' = JStr ''text-embedding-3-small''
      \<and> safeParse (the (smartComposerSettingsSchema example_deps)) (JObj example_input2)
          = Inr (JObj out')
      \<and> get_prop out' ''ragOptions'' = get_prop out ''ragOptions'')"
proof -
  obtain S where S: "smartComposerSettingsSchema example_deps = Some S"
    using example_schema_loads by auto
  from ragOptions_parse_shape[OF S, of example_input]
  obtain out cs tt ms lim ex inc e where out:
    "safeParse S (JObj example_input) = Inr (JObj out)"
    "first_id (DEFAULT_EMBEDDING_MODELS example_deps) = Some e"
    "get_prop out ''embeddingModelId'' = string_or (get_prop example_input ''embeddingModelId'') e"
    and other: "\<forall>kvs' r r'.
               get_prop example_input ''ragOptions'' = JObj r \<longrightarrow>
               get_prop kvs' ''ragOptions'' = JObj r' \<longrightarrow>
               (\<forall>k \<in> set ragOptions_keys. get_prop r k = get_prop r' k) \<longrightarrow>
               (\<exists>out'. safeParse S (JObj kvs') = Inr (JObj out')
                  \<and> get_prop out' ''ragOptions'' = get_prop out ''ragOptions'')"
    by blast
  have rag: "get_prop out ''ragOptions''
          = JObj [(''chunkSize'', num 1000), (''thresholdTokens'', num 8192),
                  (''minSimilarity'', num 0), (''limit'', num 5),
                  (''excludePatterns'', JArr []),
                  (''includePatterns'', JArr [JStr ''notes/**''])]"
    using settings_parse_ragOptions[OF S out(1)]
    by (simp add: example_input_def ragOptions_expected_def get_prop_def number_or_def
        strings_or_empty_def)
  have emb: "get_prop out ''embeddingModelId'' = JStr ''text-embedding-3-small''"
    using out(2,3)
    by (simp add: example_deps_def example_input_def first_id_def get_prop_def string_or_def)
  let ?r = "[(''chunkSize'', JStr ''big''), (''limit'', num 5),
             (''includePatterns'', JArr [JStr ''notes/**'']),
             (''excludePatterns'', JArr [num 1]), (''extra'', JBool True)]"
  let ?r' = "[(''other'', JStr ''x''), (''limit'', num 5),
              (''excludePatterns'', JArr [num 1]),
              (''includePatterns'', JArr [JStr ''notes/**'']),
              (''chunkSize'', JStr ''big'')]"
  have r: "get_prop example_input ''ragOptions'' = JObj ?r"
    by (simp add: example_input_def get_prop_def)
  have r': "get_prop example_input2 ''ragOptions'' = JObj ?r'"
    by (simp add: example_input2_def get_prop_def)
  have agree: "\<forall>k \<in> set ragOptions_keys. get_prop ?r k = get_prop ?r' k"
    by (simp add: ragOptions_keys_def get_prop_def)
  have "\<exists>out'. safeParse S (JObj example_input2) = Inr (JObj out')
                  \<and> get_prop out' ''ragOptions'' = get_prop out ''ragOptions''"
    using other r r' agree by blast
  with out(1) rag emb show ?thesis by (auto simp: S)
qed

section \<open>The Azure OpenAI provider: results\<close>

text \<open>
  C8. For every model string and every text, \<open>getEmbedding\<close> of the Azure OpenAI
  provider throws the error saying that the provider does not support embeddings; it
  never returns a vector.
\<close>

theorem getEmbedding_always_throws:
  "getEmbedding provider model text'
     = Inl (Error (''Provider '' @ provider_id provider
                   @ '' does not support embeddings. Please use a different provider.''))
   \<and> (\<forall>v. getEmbedding provider model text' \<noteq> Inr v)"
  by (simp add: getEmbedding_def)

section \<open>The plugin's settings: results\<close>

text \<open>
  C9. For every \<open>newSettings\<close> that fails the validation by
  \<open>smartComposerSettingsSchema\<close>, \<open>setSettings\<close> returns without throwing and leaves the
  plugin's settings as they were: nothing is persisted, the RAG engine is not given the
  new settings, no settings-change listener is called, and the editor autocomplete is
  not touched. The one effect is a notice listing the issues.
\<close>

theorem setSettings_invalid_leaves_state:
  assumes "smartComposerSettingsSchema d = Some S"
    and "safeParse S newSettings = Inl issues"
  shows "\<exists>p'. setSettings S setup_ok p newSettings = Inr p'
           \<and> settings p' = settings p
           \<and> savedData p' = savedData p
           \<and> ragEngine p' = ragEngine p
           \<and> listenerCalls p' = listenerCalls p
           \<and> settingsChangeListeners p' = settingsChangeListeners p
           \<and> editorAutocompleteCleanup p' = editorAutocompleteCleanup p
           \<and> cleanupCalls p' = cleanupCalls p
           \<and> notices p' = notices p @ [InvalidSettings issues]"
  using assms(2) by (simp add: setSettings_def)

theorem setSettings_invalid_leaves_state_witness:
  "smartComposerSettingsSchema example_deps \<noteq> None
   \<and> safeParse (the (smartComposerSettingsSchema example_deps)) JNull
       = Inl [InvalidType TObject TNull []]
   \<and> setSettings (the (smartComposerSettingsSchema example_deps)) True example_plugin JNull
       = Inr (example_plugin\<lparr>notices := [InvalidSettings [InvalidType TObject TNull []]]\<rparr>)"
proof -
  obtain S where S: "smartComposerSettingsSchema example_deps = Some S"
    using example_schema_loads by auto
  have bad: "safeParse S JNull = Inl [InvalidType TObject TNull []]"
    using non_object_rejected[OF S, of JNull] by simp
  from setSettings_invalid_leaves_state[OF S bad, of True example_plugin]
  obtain p' where p': "setSettings S True example_plugin JNull = Inr p'"
    "settings p' = settings example_plugin" "savedData p' = savedData example_plugin"
    "ragEngine p' = ragEngine example_plugin" "listenerCalls p' = listenerCalls example_plugin"
    "settingsChangeListeners p' = settingsChangeListeners example_plugin"
    "editorAutocompleteCleanup p' = editorAutocompleteCleanup example_plugin"
    "cleanupCalls p' = cleanupCalls example_plugin"
    "notices p' = notices example_plugin @ [InvalidSettings [InvalidType TObject TNull []]]"
    by blast
  have "p' = example_plugin\<lparr>notices := [InvalidSettings [InvalidType TObject TNull []]]\<rparr>"
    using p'(2-9) by (cases p') (simp add: example_plugin_def)
  with S bad p'(1) show ?thesis by simp
qed

text \<open>
  For comparison, a settings object that passes the validation is stored, persisted,
  handed to the engine and to every listener, and switches the autocomplete off.
\<close>

lemma setSettings_valid_example:
  "setSettings (the (smartComposerSettingsSchema example_deps)) True example_plugin
     (JObj [(''editorAutocomplete'', JObj [(''enabled'', JBool False)])])
   = Inr (example_plugin
       \<lparr>settings := JObj [(''editorAutocomplete'', JObj [(''enabled'', JBool False)])],
        savedData := JObj [(''editorAutocomplete'', JObj [(''enabled'', JBool False)])],
        ragEngine := Some (JObj [(''editorAutocomplete'', JObj [(''enabled'', JBool False)])]),
        listenerCalls :=
          [(0, JObj [(''editorAutocomplete'', JObj [(''enabled'', JBool False)])]),
           (1, JObj [(''editorAutocomplete'', JObj [(''enabled'', JBool False)])])],
        editorAutocompleteCleanup := False,
        cleanupCalls := 1\<rparr>)"
proof -
  obtain S where S: "smartComposerSettingsSchema example_deps = Some S"
    using example_schema_loads by auto
  from settings_parse_succeeds[OF S,
      of "[(''editorAutocomplete'', JObj [(''enabled'', JBool False)])]"]
  obtain out where "safeParse S (JObj [(''editorAutocomplete'', JObj [(''enabled'', JBool False)])])
      = Inr (JObj out)" by blast
  then show ?thesis
    by (simp add: S setSettings_def autocompleteEnabled_def get_prop_def example_plugin_def)
qed

section \<open>Properties of the engine model\<close>

subsection \<open>State operations\<close>

lemma concat_batches: "concat (batches n xs) = xs"
  by (induction n xs rule: batches.induct) auto

lemma chunk_path: "c \<in> set (chunk env d cfg) \<Longrightarrow> documentPath c = path d"
  by (auto simp: chunk_def)

text \<open>What each operation leaves alone, and what it changes.\<close>


lemma deleteRows_proj [simp]:
  "cache (deleteRows p st) = cache st" "indexState (deleteRows p st) = indexState st"
  "embedLog (deleteRows p st) = embedLog st"
  "indexedHash (deleteRows p st) = indexedHash st"
  by (simp_all add: deleteRows_def indexedHash_def fun_eq_iff)

lemma rowsOf_deleteRows [simp]:
  "rowsOf p (deleteRows q st) = (if p = q then [] else rowsOf p st)"
  by (auto simp: rowsOf_def deleteRows_def intro: filter_cong)

lemma insertRows_proj [simp]:
  "cache (insertRows rs st) = cache st" "indexState (insertRows rs st) = indexState st"
  "embedLog (insertRows rs st) = embedLog st" "store (insertRows rs st) = store st @ rs"
  "indexedHash (insertRows rs st) = indexedHash st"
  by (simp_all add: insertRows_def indexedHash_def fun_eq_iff)

lemma dropHash_proj [simp]:
  "cache (dropHash p st) = cache st" "store (dropHash p st) = store st"
  "embedLog (dropHash p st) = embedLog st" "rowsOf q (dropHash p st) = rowsOf q st"
  by (simp_all add: dropHash_def rowsOf_def)

lemma map_of_filter_neq:
  "map_of (filter (\<lambda>(q, h). q \<noteq> p) xs) k = (if k = p then None else map_of xs k)"
  by (induction xs) auto

lemma dropHash_model [simp]:
  "indexModelId (indexState (dropHash p st)) = indexModelId (indexState st)"
  by (simp add: dropHash_def)

lemma indexedHash_dropHash [simp]:
  "indexedHash (dropHash p st) q = (if q = p then None else indexedHash st q)"
  by (simp add: dropHash_def indexedHash_def map_of_filter_neq)

lemma setHash_proj [simp]:
  "cache (setHash p h st) = cache st" "store (setHash p h st) = store st"
  "embedLog (setHash p h st) = embedLog st" "rowsOf q (setHash p h st) = rowsOf q st"
  by (simp_all add: setHash_def rowsOf_def)

lemma setHash_model [simp]:
  "indexModelId (indexState (setHash p h st)) = indexModelId (indexState st)"
  by (simp add: setHash_def)

lemma indexedHash_setHash [simp]:
  "indexedHash (setHash p h st) q = (if q = p then Some h else indexedHash st q)"
  by (simp add: setHash_def indexedHash_def map_of_filter_neq)

lemma cachePut_proj [simp]:
  "store (cachePut h m v st) = store st" "indexState (cachePut h m v st) = indexState st"
  "embedLog (cachePut h m v st) = embedLog st" "rowsOf q (cachePut h m v st) = rowsOf q st"
  "indexedHash (cachePut h m v st) = indexedHash st"
  by (simp_all add: cachePut_def rowsOf_def indexedHash_def fun_eq_iff)

text \<open>The IndexState instance of the active pair.\<close>

lemma selectIndexState_proj [simp]:
  "store (selectIndexState cfg st) = store st" "cache (selectIndexState cfg st) = cache st"
  "embedLog (selectIndexState cfg st) = embedLog st"
  "rowsOf p (selectIndexState cfg st) = rowsOf p st"
  "indexModelId (indexState (selectIndexState cfg st)) = embeddingModelId cfg"
  by (simp_all add: selectIndexState_def rowsOf_def)

lemma indexedHash_selectIndexState:
  "indexedHash (selectIndexState cfg st) p
     = (if indexModelId (indexState st) = embeddingModelId cfg then indexedHash st p else None)"
  by (simp add: selectIndexState_def indexedHash_def)

lemma selectIndexState_same:
  "indexModelId (indexState st) = embeddingModelId cfg \<Longrightarrow> selectIndexState cfg st = st"
  by (simp add: selectIndexState_def)

lemma vectorFrom_selectIndexState [simp]:
  "vectorFrom env m (selectIndexState cfg st) st' r = vectorFrom env m st st' r"
  by (simp add: vectorFrom_def split: option.splits)

lemma isComplete_cong:
  "store s = store s' \<Longrightarrow> isComplete env cfg s d = isComplete env cfg s' d"
  by (simp add: isComplete_def rowsOf_def)

text \<open>Steps 3 and 4: the deletions for removed and for changed documents.\<close>


lemma fold_removed:
  "rowsOf p (fold (\<lambda>q s. dropHash q (deleteRows q s)) removed st)
     = (if p \<in> set removed then [] else rowsOf p st)"
  "indexedHash (fold (\<lambda>q s. dropHash q (deleteRows q s)) removed st) p
     = (if p \<in> set removed then None else indexedHash st p)"
  "cache (fold (\<lambda>q s. dropHash q (deleteRows q s)) removed st) = cache st"
  "embedLog (fold (\<lambda>q s. dropHash q (deleteRows q s)) removed st) = embedLog st"
  "indexModelId (indexState (fold (\<lambda>q s. dropHash q (deleteRows q s)) removed st))
     = indexModelId (indexState st)"
  by (induction removed arbitrary: st) auto

lemma fold_changed:
  "rowsOf p (fold (\<lambda>d s. deleteRows (path d) s) changed st)
     = (if p \<in> path ` set changed then [] else rowsOf p st)"
  "indexedHash (fold (\<lambda>d s. deleteRows (path d) s) changed st) = indexedHash st"
  "cache (fold (\<lambda>d s. deleteRows (path d) s) changed st) = cache st"
  "embedLog (fold (\<lambda>d s. deleteRows (path d) s) changed st) = embedLog st"
  "indexState (fold (\<lambda>d s. deleteRows (path d) s) changed st) = indexState st"
  by (induction changed arbitrary: st) auto

text \<open>Step 8: recording the hashes of completed documents.\<close>


lemma commitComplete_proj [simp]:
  "store (commitComplete env cfg changed st) = store st"
  "cache (commitComplete env cfg changed st) = cache st"
  "embedLog (commitComplete env cfg changed st) = embedLog st"
  "rowsOf q (commitComplete env cfg changed st) = rowsOf q st"
  "indexModelId (indexState (commitComplete env cfg changed st)) = indexModelId (indexState st)"
  unfolding commitComplete_def by (induction changed arbitrary: st) auto

lemma commitComplete_other:
  "p \<notin> path ` set changed \<Longrightarrow> indexedHash (commitComplete env cfg changed st) p = indexedHash st p"
  unfolding commitComplete_def by (induction changed arbitrary: st) auto

lemma commitComplete_hash:
  assumes "distinct (map path changed)" and "d \<in> set changed"
  shows "indexedHash (commitComplete env cfg changed st) (path d)
           = (if isComplete env cfg st d then Some (contentHash d) else indexedHash st (path d))"
  using assms
proof (induction changed arbitrary: st)
  case Nil then show ?case by simp
next
  case (Cons x xs)
  let ?s = "if isComplete env cfg st x then setHash (path x) (contentHash x) st else st"
  have st: "store ?s = store st" by simp
  have step: "commitComplete env cfg (x # xs) st = commitComplete env cfg xs ?s"
    by (simp add: commitComplete_def)
  show ?case
  proof (cases "d = x")
    case True
    with Cons.prems have "path x \<notin> path ` set xs" by auto
    then show ?thesis unfolding step True by (simp add: commitComplete_other)
  next
    case False
    with Cons.prems have d: "d \<in> set xs" and ne: "path d \<noteq> path x" and dist: "distinct (map path xs)"
      by (auto simp: image_iff)
    show ?thesis unfolding step Cons.IH[OF dist d] isComplete_cong[OF st] using ne by simp
  qed
qed

lemma allCommitted_commit:
  "distinct (map path changed) \<Longrightarrow> allCommitted env cfg changed (commitComplete env cfg changed st)"
  unfolding allCommitted_def
  using isComplete_cong[of "commitComplete env cfg changed st" st env cfg]
  by (auto simp: commitComplete_hash)

lemma fold_cachePut_proj [simp]:
  "store (fold (\<lambda>(c, v). cachePut (chunkHash c) m v) cvs st) = store st"
  "embedLog (fold (\<lambda>(c, v). cachePut (chunkHash c) m v) cvs st) = embedLog st"
  "indexedHash (fold (\<lambda>(c, v). cachePut (chunkHash c) m v) cvs st) = indexedHash st"
  "indexState (fold (\<lambda>(c, v). cachePut (chunkHash c) m v) cvs st) = indexState st"
  by (induction cvs arbitrary: st) auto

lemma embed_Inr: "embed env i m ts = Inr vs \<Longrightarrow> vs = map (embedVector env i m) ts"
  by (auto simp: embed_def split: option.splits)

lemma map2_mkRow_map:
  "map2 (mkRow m) b (map f (map chunkText b)) = map (\<lambda>c. mkRow m c (f (chunkText c))) b"
  by (induction b) auto

text \<open>The rows of the batches: their chunks, their model, their vectors.\<close>

lemma batchRows_chunks: "map rowChunk (batchRows env m i bs) = concat bs"
  by (induction bs arbitrary: i) (auto simp: mkRow_def comp_def)

lemma batchRows_model: "r \<in> set (batchRows env m i bs) \<Longrightarrow> modelId r = m"
  by (induction bs arbitrary: i) (auto simp: mkRow_def)

lemma batchRows_vector:
  "r \<in> set (batchRows env m i bs) \<Longrightarrow>
   \<exists>j < length bs. rowChunk r \<in> set (bs ! j)
      \<and> vector r = embedVector env (i + j) m (chunkText (rowChunk r))"
proof (induction bs arbitrary: i)
  case Nil then show ?case by simp
next
  case (Cons b bs)
  show ?case
  proof (cases "r \<in> set (map (\<lambda>c. mkRow m c (embedVector env i m (chunkText c))) b)")
    case True
    then have "rowChunk r \<in> set ((b # bs) ! 0)
        \<and> vector r = embedVector env (i + 0) m (chunkText (rowChunk r))"
      by (auto simp: mkRow_def)
    then show ?thesis by blast
  next
    case False
    with Cons.prems have "r \<in> set (batchRows env m (Suc i) bs)" by simp
    from Cons.IH[OF this] obtain j where j: "j < length bs" "rowChunk r \<in> set (bs ! j)"
      "vector r = embedVector env (Suc i + j) m (chunkText (rowChunk r))" by blast
    then have "Suc j < length (b # bs) \<and> rowChunk r \<in> set ((b # bs) ! Suc j)
        \<and> vector r = embedVector env (i + Suc j) m (chunkText (rowChunk r))" by simp
    then show ?thesis by blast
  qed
qed

lemma embedBatches_success:
  assumes "embedBatches env cfg changed done tot bs st = (Inr ps, st')"
  shows "store st' = store st @ batchRows env (embeddingModelId cfg) (length (embedLog st)) bs"
    and "embedLog st' = embedLog st @ bs"
  using assms
proof (induction bs arbitrary: "done" st ps st')
  case Nil
  { case 1 then show ?case by simp }
  { case 2 then show ?case by simp }
next
  case (Cons b bs)
  let ?m = "embeddingModelId cfg"
  {
    case 1
    from 1 obtain vs where vs: "embed env (length (embedLog st)) ?m (map chunkText b) = Inr vs"
      by (auto simp: Let_def split: sum.splits)
    define st4 where "st4 = commitComplete env cfg changed
        (fold (\<lambda>(c, v). cachePut (chunkHash c) ?m v) (zip b vs)
           (insertRows (map2 (mkRow ?m) b vs) (st\<lparr>embedLog := embedLog st @ [b]\<rparr>)))"
    from 1 vs obtain ps' where rec: "embedBatches env cfg changed (done + length b) tot bs st4 = (Inr ps', st')"
      by (auto simp: Let_def st4_def split: sum.splits prod.splits)
    have rows: "map2 (mkRow ?m) b vs
        = map (\<lambda>c. mkRow ?m c (embedVector env (length (embedLog st)) ?m (chunkText c))) b"
      unfolding embed_Inr[OF vs] by (rule map2_mkRow_map)
    have s4: "store st4 = store st @ map2 (mkRow ?m) b vs" by (simp add: st4_def)
    have l4: "length (embedLog st4) = Suc (length (embedLog st))" by (simp add: st4_def)
    from Cons.IH(1)[OF rec] show ?case unfolding s4 l4 rows by simp
  }
  {
    case 2
    from 2 obtain vs where vs: "embed env (length (embedLog st)) ?m (map chunkText b) = Inr vs"
      by (auto simp: Let_def split: sum.splits)
    define st4 where "st4 = commitComplete env cfg changed
        (fold (\<lambda>(c, v). cachePut (chunkHash c) ?m v) (zip b vs)
           (insertRows (map2 (mkRow ?m) b vs) (st\<lparr>embedLog := embedLog st @ [b]\<rparr>)))"
    from 2 vs obtain ps' where rec: "embedBatches env cfg changed (done + length b) tot bs st4 = (Inr ps', st')"
      by (auto simp: Let_def st4_def split: sum.splits prod.splits)
    from Cons.IH(2)[OF rec] have "embedLog st' = embedLog st4 @ bs" .
    then show ?case by (simp add: st4_def)
  }
qed

lemma indexedHash_embedLog_update [simp]:
  "indexedHash (st\<lparr>embedLog := l\<rparr>) = indexedHash st"
  by (simp add: indexedHash_def fun_eq_iff)

lemma embedBatches_other:
  assumes "embedBatches env cfg changed done tot bs st = (res, st')"
    and "p \<notin> path ` set changed"
  shows "indexedHash st' p = indexedHash st p"
  using assms(1)
proof (induction bs arbitrary: "done" st res st')
  case Nil then show ?case by simp
next
  case (Cons b bs)
  let ?m = "embeddingModelId cfg"
  show ?case
  proof (cases "embed env (length (embedLog st)) ?m (map chunkText b)")
    case (Inl e)
    with Cons.prems show ?thesis by (auto simp: Let_def)
  next
    case (Inr vs)
    define st4 where "st4 = commitComplete env cfg changed
        (fold (\<lambda>(c, v). cachePut (chunkHash c) ?m v) (zip b vs)
           (insertRows (map2 (mkRow ?m) b vs) (st\<lparr>embedLog := embedLog st @ [b]\<rparr>)))"
    obtain res' s' where rec: "embedBatches env cfg changed (done + length b) tot bs st4 = (res', s')"
      by (cases "embedBatches env cfg changed (done + length b) tot bs st4")
    with Cons.prems Inr have "st' = s'"
      by (auto simp: Let_def st4_def split: sum.splits)
    moreover have "indexedHash s' p = indexedHash st4 p" by (rule Cons.IH[OF rec])
    moreover have "indexedHash st4 p = indexedHash st p"
      by (simp add: st4_def commitComplete_other[OF assms(2)])
    ultimately show ?thesis by simp
  qed
qed

lemma embedBatches_model:
  assumes "embedBatches env cfg changed done tot bs st = (res, st')"
  shows "indexModelId (indexState st') = indexModelId (indexState st)"
  using assms
proof (induction bs arbitrary: "done" st res st')
  case Nil then show ?case by simp
next
  case (Cons b bs)
  let ?m = "embeddingModelId cfg"
  show ?case
  proof (cases "embed env (length (embedLog st)) ?m (map chunkText b)")
    case (Inl e)
    with Cons.prems show ?thesis by (auto simp: Let_def)
  next
    case (Inr vs)
    define st4 where "st4 = commitComplete env cfg changed
        (fold (\<lambda>(c, v). cachePut (chunkHash c) ?m v) (zip b vs)
           (insertRows (map2 (mkRow ?m) b vs) (st\<lparr>embedLog := embedLog st @ [b]\<rparr>)))"
    obtain res' s' where rec: "embedBatches env cfg changed (done + length b) tot bs st4 = (res', s')"
      by (cases "embedBatches env cfg changed (done + length b) tot bs st4")
    with Cons.prems Inr have "st' = s'"
      by (auto simp: Let_def st4_def split: sum.splits)
    moreover have "indexModelId (indexState s') = indexModelId (indexState st4)"
      by (rule Cons.IH[OF rec])
    moreover have "indexModelId (indexState st4) = indexModelId (indexState st)"
      by (simp add: st4_def)
    ultimately show ?thesis by simp
  qed
qed

lemma isComplete_rows_cong:
  "rowsOf (path d) s = rowsOf (path d) s' \<Longrightarrow> isComplete env cfg s d = isComplete env cfg s' d"
  by (simp add: isComplete_def)

lemma isComplete_mono:
  "store s' = store s @ rs \<Longrightarrow> isComplete env cfg s d \<Longrightarrow> isComplete env cfg s' d"
  by (auto simp: isComplete_def rowsOf_def list_all_iff)

lemma embedLog_update_proj [simp]:
  "rowsOf p (st\<lparr>embedLog := l\<rparr>) = rowsOf p st"
  "isComplete env cfg (st\<lparr>embedLog := l\<rparr>) d = isComplete env cfg st d"
  "allCommitted env cfg changed (st\<lparr>embedLog := l\<rparr>) = allCommitted env cfg changed st"
  by (simp_all add: rowsOf_def isComplete_def allCommitted_def)

lemma embedBatches_committed:
  assumes "distinct (map path changed)"
    and "embedBatches env cfg changed done tot bs st = (res, st')"
    and "allCommitted env cfg changed st"
  shows "allCommitted env cfg changed st'"
  using assms(2,3)
proof (induction bs arbitrary: "done" st res st')
  case Nil then show ?case by simp
next
  case (Cons b bs)
  let ?m = "embeddingModelId cfg"
  show ?case
  proof (cases "embed env (length (embedLog st)) ?m (map chunkText b)")
    case (Inl e)
    with Cons.prems show ?thesis by (auto simp: Let_def)
  next
    case (Inr vs)
    define st4 where "st4 = commitComplete env cfg changed
        (fold (\<lambda>(c, v). cachePut (chunkHash c) ?m v) (zip b vs)
           (insertRows (map2 (mkRow ?m) b vs) (st\<lparr>embedLog := embedLog st @ [b]\<rparr>)))"
    obtain res' s' where rec: "embedBatches env cfg changed (done + length b) tot bs st4 = (res', s')"
      by (cases "embedBatches env cfg changed (done + length b) tot bs st4")
    with Cons.prems Inr have st': "st' = s'"
      by (auto simp: Let_def st4_def split: sum.splits)
    have "allCommitted env cfg changed st4" unfolding st4_def by (rule allCommitted_commit[OF assms(1)])
    from Cons.IH[OF rec this] show ?thesis unfolding st' .
  qed
qed

lemma embedBatches_store:
  assumes "embedBatches env cfg changed done tot bs st = (res, st')"
  shows "\<exists>rows. store st' = store st @ rows \<and> set (map rowChunk rows) \<subseteq> set (concat bs)"
  using assms
proof (induction bs arbitrary: "done" st res st')
  case Nil then show ?case by simp
next
  case (Cons b bs)
  let ?m = "embeddingModelId cfg"
  show ?case
  proof (cases "embed env (length (embedLog st)) ?m (map chunkText b)")
    case (Inl e)
    with Cons.prems show ?thesis by (auto simp: Let_def)
  next
    case (Inr vs)
    define st4 where "st4 = commitComplete env cfg changed
        (fold (\<lambda>(c, v). cachePut (chunkHash c) ?m v) (zip b vs)
           (insertRows (map2 (mkRow ?m) b vs) (st\<lparr>embedLog := embedLog st @ [b]\<rparr>)))"
    obtain res' s' where rec: "embedBatches env cfg changed (done + length b) tot bs st4 = (res', s')"
      by (cases "embedBatches env cfg changed (done + length b) tot bs st4")
    with Cons.prems Inr have st': "st' = s'"
      by (auto simp: Let_def st4_def split: sum.splits)
    from Cons.IH[OF rec] obtain rows where rows: "store s' = store st4 @ rows"
      "set (map rowChunk rows) \<subseteq> set (concat bs)" by blast
    have new: "map2 (mkRow ?m) b vs
        = map (\<lambda>c. mkRow ?m c (embedVector env (length (embedLog st)) ?m (chunkText c))) b"
      unfolding embed_Inr[OF Inr] by (rule map2_mkRow_map)
    have s4: "store st4 = store st @ map2 (mkRow ?m) b vs" by (simp add: st4_def)
    have "store st' = store st @ (map2 (mkRow ?m) b vs @ rows)" using rows(1) s4 st' by simp
    moreover have "set (map rowChunk (map2 (mkRow ?m) b vs @ rows)) \<subseteq> set (concat (b # bs))"
      using rows(2) unfolding new by (auto simp: mkRow_def)
    ultimately show ?thesis by blast
  qed
qed

lemma embedBatches_hash:
  assumes dist: "distinct (map path changed)" and d: "d \<in> set changed"
    and "embedBatches env cfg changed done tot bs st = (res, st')"
  shows "indexedHash st' (path d) = indexedHash st (path d)
         \<or> (isComplete env cfg st' d \<and> indexedHash st' (path d) = Some (contentHash d))"
  using assms(3)
proof (induction bs arbitrary: "done" st res st')
  case Nil then show ?case by simp
next
  case (Cons b bs)
  let ?m = "embeddingModelId cfg"
  show ?case
  proof (cases "embed env (length (embedLog st)) ?m (map chunkText b)")
    case (Inl e)
    with Cons.prems show ?thesis by (auto simp: Let_def)
  next
    case (Inr vs)
    define st3 where "st3 = fold (\<lambda>(c, v). cachePut (chunkHash c) ?m v) (zip b vs)
           (insertRows (map2 (mkRow ?m) b vs) (st\<lparr>embedLog := embedLog st @ [b]\<rparr>))"
    define st4 where "st4 = commitComplete env cfg changed st3"
    obtain res' s' where rec: "embedBatches env cfg changed (done + length b) tot bs st4 = (res', s')"
      by (cases "embedBatches env cfg changed (done + length b) tot bs st4")
    with Cons.prems Inr have st': "st' = s'"
      by (auto simp: Let_def st4_def st3_def split: sum.splits)
    have h4: "indexedHash st4 (path d)
        = (if isComplete env cfg st3 d then Some (contentHash d) else indexedHash st (path d))"
      unfolding st4_def commitComplete_hash[OF dist d] by (simp add: st3_def)
    from embedBatches_store[OF rec] obtain rows where "store s' = store st3 @ rows"
      by (auto simp: st4_def)
    then have mono: "isComplete env cfg st3 d \<Longrightarrow> isComplete env cfg s' d"
      by (rule isComplete_mono)
    from Cons.IH[OF rec] show ?thesis unfolding st' h4 using mono
      by (cases "isComplete env cfg st3 d") auto
  qed
qed

subsection \<open>A successful run of the index coordinator\<close>

lemma filter_path_staged:
  assumes "distinct (map path changed)" and "d \<in> set changed"
  shows "filter (\<lambda>c. documentPath c = path d) (concat (map (\<lambda>d. chunk env d cfg) changed))
           = chunk env d cfg"
  using assms
proof (induction changed)
  case Nil then show ?case by simp
next
  case (Cons x xs)
  have same: "filter (\<lambda>c. documentPath c = path y) (chunk env y cfg) = chunk env y cfg" for y
    by (rule filter_True) (simp add: chunk_path)
  have other: "filter (\<lambda>c. documentPath c = p) (chunk env y cfg) = []" if "path y \<noteq> p" for y p
    using that by (auto simp: filter_empty_conv chunk_path)
  show ?case
  proof (cases "d = x")
    case True
    from Cons.prems have "\<forall>y \<in> set xs. path y \<noteq> path x" by (auto simp: image_iff)
    then have "filter (\<lambda>c. documentPath c = path x) (concat (map (\<lambda>d. chunk env d cfg) xs)) = []"
      by (induction xs) (auto simp: other)
    then show ?thesis by (simp add: True same)
  next
    case False
    with Cons.prems have d: "d \<in> set xs" and dist: "distinct (map path xs)" and ne: "path x \<noteq> path d"
      by (auto simp: image_iff)
    show ?thesis using Cons.IH[OF dist d] by (simp add: other[OF ne])
  qed
qed

lemma staged_path:
  "c \<in> set (concat (map (\<lambda>d. chunk env d cfg) changed)) \<Longrightarrow> documentPath c \<in> path ` set changed"
  by (auto simp: chunk_path)

lemma map_fst_cacheHitsOf:
  "map fst (cacheHitsOf st m staged) = filter (\<lambda>c. cache st (chunkHash c, m) \<noteq> None) staged"
  by (induction staged) (auto simp: cacheHitsOf_def List.map_filter_simps split: option.splits)

lemma hit_rows:
  "map rowChunk (map (\<lambda>(c, v). mkRow m c v) hits) = map fst hits"
  "r \<in> set (map (\<lambda>(c, v). mkRow m c v) hits) \<Longrightarrow> modelId r = m"
  by (auto simp: mkRow_def)

lemma removedPaths_iff:
  "p \<in> set (removedPaths st listing) \<longleftrightarrow> indexedHash st p \<noteq> None \<and> p \<notin> path ` set listing"
  by (auto simp: removedPaths_def indexedHash_def map_of_eq_None_iff image_iff)

lemma rowsOf_append:
  "store s' = store s @ rs \<Longrightarrow>
   rowsOf p s' = rowsOf p s @ filter (\<lambda>r. documentPath (rowChunk r) = p) rs"
  by (simp add: rowsOf_def)

lemma cacheHitsOf_mem:
  "(c, v) \<in> set (cacheHitsOf st m staged) \<Longrightarrow> cache st (chunkHash c, m) = Some v"
  by (induction staged) (auto simp: cacheHitsOf_def List.map_filter_simps split: option.splits)

lemma diffAndIndex_success:
  assumes run: "diffAndIndex env cfg reindexAll docs st0 = (Inr stats, st')"
    and dist: "distinct (map path docs)"
  shows "d \<in> set (filter (isChanged reindexAll st0) (currentListing env cfg docs)) \<Longrightarrow>
           mset (map rowChunk (rowsOf (path d) st')) = mset (chunk env d cfg)
           \<and> (\<forall>r \<in> set (rowsOf (path d) st').
                 modelId r = embeddingModelId cfg
               \<and> vectorFrom env (embeddingModelId cfg) st0 st' r)
           \<and> indexedHash st' (path d) = Some (contentHash d)"
    and "p \<notin> path ` set (filter (isChanged reindexAll st0) (currentListing env cfg docs)) \<Longrightarrow>
           rowsOf p st' = (if p \<in> set (removedPaths st0 (currentListing env cfg docs)) then []
                           else rowsOf p st0)
           \<and> indexedHash st' p = (if p \<in> set (removedPaths st0 (currentListing env cfg docs)) then None
                           else indexedHash st0 p)"
    and "embedLog st' = embedLog st0
           @ batches (batchSize env)
               (cacheMissesOf st0 (embeddingModelId cfg)
                 (concat (map (\<lambda>d. chunk env d cfg)
                    (filter (isChanged reindexAll st0) (currentListing env cfg docs)))))"
    and "indexModelId (indexState st') = indexModelId (indexState st0)"
    and "documentsChanged stats
           = length (filter (isChanged reindexAll st0) (currentListing env cfg docs))
         \<and> documentsRemoved stats = length (removedPaths st0 (currentListing env cfg docs))
         \<and> chunksEmbedded stats
             = length (cacheMissesOf st0 (embeddingModelId cfg)
                 (concat (map (\<lambda>d. chunk env d cfg)
                    (filter (isChanged reindexAll st0) (currentListing env cfg docs)))))"
proof -
  define listing where "listing = currentListing env cfg docs"
  define changed where "changed = filter (isChanged reindexAll st0) listing"
  define removed where "removed = removedPaths st0 listing"
  define st1 where "st1 = fold (\<lambda>p s. dropHash p (deleteRows p s)) removed st0"
  define staged where "staged = concat (map (\<lambda>d. chunk env d cfg) changed)"
  define st2 where "st2 = fold (\<lambda>d s. deleteRows (path d) s) changed st1"
  define m where "m = embeddingModelId cfg"
  define hits where "hits = cacheHitsOf st2 m staged"
  define misses where "misses = cacheMissesOf st2 m staged"
  define st3 where "st3 = insertRows (map (\<lambda>(c, v). mkRow m c v) hits) st2"
  define st4 where "st4 = commitComplete env cfg changed st3"
  define bs where "bs = batches (batchSize env) misses"
  from run obtain progress where eb:
    "embedBatches env cfg changed (length hits) (length staged) bs st4 = (Inr progress, st')"
    and stats: "stats = \<lparr>documentsScanned = length listing,
                   documentsChanged = length changed,
                   documentsRemoved = length removed,
                   chunksEmbedded = length misses,
                   cacheHits = length hits,
                   stagedChunks = length staged\<rparr>"
    unfolding diffAndIndex_def Let_def listing_def[symmetric] changed_def[symmetric]
      removed_def[symmetric] st1_def[symmetric] staged_def[symmetric] st2_def[symmetric]
      m_def[symmetric] hits_def[symmetric] misses_def[symmetric] st3_def[symmetric]
      st4_def[symmetric] bs_def[symmetric]
    by (auto split: prod.splits sum.splits)
  have distc: "distinct (map path changed)"
    using dist by (simp add: changed_def listing_def currentListing_def distinct_map_filter)
  have cache2: "cache st2 = cache st0" by (simp add: st2_def st1_def fold_changed fold_removed)
  have log4: "embedLog st4 = embedLog st0"
    by (simp add: st4_def st3_def st2_def st1_def fold_changed fold_removed)
  have model4: "indexModelId (indexState st4) = indexModelId (indexState st0)"
    by (simp add: st4_def st3_def st2_def st1_def fold_changed fold_removed)
  define rows where "rows = batchRows env m (length (embedLog st4)) bs"
  note ebs = embedBatches_success[OF eb]
  have rows1: "store st' = store st4 @ rows" using ebs(1) by (simp add: rows_def m_def)
  have rows2: "map rowChunk rows = misses"
    by (simp add: rows_def batchRows_chunks bs_def concat_batches)
  have rows3: "\<forall>r \<in> set rows. modelId r = m"
    using batchRows_model by (auto simp: rows_def)
  have log: "embedLog st' = embedLog st0 @ bs" using ebs(2) log4 by simp
  let ?hr = "map (\<lambda>(c, v). mkRow m c v) hits"
  have store': "store st' = store st2 @ (?hr @ rows)" using rows1 by (simp add: st4_def st3_def)
  have rowsOf2: "rowsOf p st2 = (if p \<in> path ` set changed then []
                               else if p \<in> set removed then [] else rowsOf p st0)" for p
    by (simp add: st2_def st1_def fold_changed fold_removed)
  have hash4: "indexedHash st4 p = (if p \<in> set removed then None else indexedHash st0 p)"
    if "p \<notin> path ` set changed" for p
    by (simp add: st4_def st3_def st2_def st1_def commitComplete_other[OF that] fold_changed fold_removed)
  have new_paths: "documentPath (rowChunk r) \<in> path ` set changed" if "r \<in> set (?hr @ rows)" for r
  proof -
    have "rowChunk r \<in> rowChunk ` set (?hr @ rows)" using that by (rule imageI)
    then have "rowChunk r \<in> set (map rowChunk (?hr @ rows))" by (simp only: set_map)
    then have "rowChunk r \<in> set (map fst hits) \<union> set misses"
      using rows2 hit_rows(1)[of m hits] by (simp del: map_map)
    then have "rowChunk r \<in> set staged"
      by (auto simp: hits_def misses_def map_fst_cacheHitsOf cacheMissesOf_def)
    then show ?thesis unfolding staged_def by (rule staged_path)
  qed
  have new_model: "modelId r = m" if "r \<in> set (?hr @ rows)" for r
    using that rows3 by (auto simp: mkRow_def)
  have new_vector: "vectorFrom env m st0 st' r" if "r \<in> set (?hr @ rows)" for r
  proof (cases "r \<in> set ?hr")
    case True
    then obtain c v where cv: "(c, v) \<in> set hits" "r = mkRow m c v" by auto
    from cv(1) have "cache st2 (chunkHash c, m) = Some v"
      unfolding hits_def by (rule cacheHitsOf_mem)
    then show ?thesis by (simp add: vectorFrom_def cv(2) mkRow_def cache2)
  next
    case False
    with that have "r \<in> set (batchRows env m (length (embedLog st4)) bs)"
      by (simp add: rows_def)
    from batchRows_vector[OF this] obtain j where j: "j < length bs" "rowChunk r \<in> set (bs ! j)"
      "vector r = embedVector env (length (embedLog st4) + j) m (chunkText (rowChunk r))"
      by blast
    have "bs ! j \<in> set bs" using j(1) by (rule nth_mem)
    with j(2) have "rowChunk r \<in> set (concat bs)" by auto
    then have "rowChunk r \<in> set misses" by (simp only: bs_def concat_batches)
    then have miss: "cache st0 (chunkHash (rowChunk r), m) = None"
      by (simp add: misses_def cacheMissesOf_def cache2)
    let ?i = "length (embedLog st0) + j"
    have mem: "?i \<in> set [length (embedLog st0) ..< length (embedLog st')]"
      using j(1) log by simp
    have nth: "embedLog st' ! ?i = bs ! j" using log by (simp add: nth_append)
    have "rowChunk r \<in> set (embedLog st' ! ?i)
        \<and> vector r = embedVector env ?i m (chunkText (rowChunk r))"
      using j(2,3) by (simp add: nth log4)
    with mem have "list_ex (\<lambda>i. rowChunk r \<in> set (embedLog st' ! i)
                        \<and> vector r = embedVector env i m (chunkText (rowChunk r)))
            [length (embedLog st0) ..< length (embedLog st')]"
      unfolding list_ex_iff by (rule bexI[rotated])
    then show ?thesis by (simp add: vectorFrom_def miss)
  qed
  {
    fix d assume "d \<in> set (filter (isChanged reindexAll st0) (currentListing env cfg docs))"
    then have d: "d \<in> set changed" by (simp add: changed_def listing_def)
    let ?P = "\<lambda>c. documentPath c = path d"
    have r': "rowsOf (path d) st' = filter (\<lambda>r. ?P (rowChunk r)) (?hr @ rows)"
      using rowsOf_append[OF store', of "path d"] rowsOf2[of "path d"] d by simp
    have "map rowChunk (rowsOf (path d) st') = filter ?P (map rowChunk (?hr @ rows))"
      unfolding r' by (simp only: filter_map comp_def)
    also have "map rowChunk (?hr @ rows) = map fst hits @ misses"
      using rows2 hit_rows(1)[of m hits] by (simp del: map_map)
    finally have "mset (map rowChunk (rowsOf (path d) st'))
        = mset (filter ?P (map fst hits)) + mset (filter ?P misses)" by simp
    also have "\<dots> = mset (filter ?P staged)"
      by (simp add: hits_def misses_def map_fst_cacheHitsOf cacheMissesOf_def)
         (induction staged; auto)
    also have "filter ?P staged = chunk env d cfg"
      unfolding staged_def by (rule filter_path_staged[OF distc d])
    finally have ms: "mset (map rowChunk (rowsOf (path d) st')) = mset (chunk env d cfg)" .
    have model: "\<forall>r \<in> set (rowsOf (path d) st'). modelId r = embeddingModelId cfg"
      unfolding r' using new_model by (auto simp: m_def)
    have vec: "\<forall>r \<in> set (rowsOf (path d) st'). vectorFrom env (embeddingModelId cfg) st0 st' r"
      unfolding r' using new_vector by (auto simp: m_def)
    have "isComplete env cfg st' d"
    proof -
      have "filter (\<lambda>r. modelId r = embeddingModelId cfg) (rowsOf (path d) st') = rowsOf (path d) st'"
        using model by (simp add: filter_id_conv)
      moreover have "set (map rowChunk (rowsOf (path d) st')) = set (chunk env d cfg)"
        using ms by (rule mset_eq_setD)
      ultimately show ?thesis by (simp add: isComplete_def list_all_iff del: set_map)
    qed
    moreover have "allCommitted env cfg changed st'"
      by (rule embedBatches_committed[OF distc eb]) (simp add: st4_def allCommitted_commit[OF distc])
    ultimately have "indexedHash st' (path d) = Some (contentHash d)"
      using d by (simp add: allCommitted_def)
    with ms model vec
    show "mset (map rowChunk (rowsOf (path d) st')) = mset (chunk env d cfg)
           \<and> (\<forall>r \<in> set (rowsOf (path d) st').
                 modelId r = embeddingModelId cfg
               \<and> vectorFrom env (embeddingModelId cfg) st0 st' r)
           \<and> indexedHash st' (path d) = Some (contentHash d)" by blast
  }
  {
    assume "p \<notin> path ` set (filter (isChanged reindexAll st0) (currentListing env cfg docs))"
    then have p: "p \<notin> path ` set changed" by (simp add: changed_def listing_def)
    have "\<forall>r \<in> set (?hr @ rows). documentPath (rowChunk r) \<noteq> p"
      using new_paths p by blast
    then have "filter (\<lambda>r. documentPath (rowChunk r) = p) (?hr @ rows) = []"
      by (simp only: filter_empty_conv)
    then have "rowsOf p st' = rowsOf p st2" using rowsOf_append[OF store', of p] by simp
    then have a: "rowsOf p st' = (if p \<in> set removed then [] else rowsOf p st0)"
      using rowsOf2[of p] p by simp
    have b: "indexedHash st' p = (if p \<in> set removed then None else indexedHash st0 p)"
      using embedBatches_other[OF eb p] hash4[OF p] by simp
    from a b show "rowsOf p st' = (if p \<in> set (removedPaths st0 (currentListing env cfg docs)) then []
                           else rowsOf p st0)
           \<and> indexedHash st' p = (if p \<in> set (removedPaths st0 (currentListing env cfg docs)) then None
                           else indexedHash st0 p)"
      by (simp add: removed_def listing_def)
  }
  show "embedLog st' = embedLog st0
           @ batches (batchSize env)
               (cacheMissesOf st0 (embeddingModelId cfg)
                 (concat (map (\<lambda>d. chunk env d cfg)
                    (filter (isChanged reindexAll st0) (currentListing env cfg docs)))))"
    using log cache2
    by (simp add: bs_def misses_def cacheMissesOf_def staged_def changed_def listing_def m_def)
  show "indexModelId (indexState st') = indexModelId (indexState st0)"
    using embedBatches_model[OF eb] model4 by simp
  show "documentsChanged stats
           = length (filter (isChanged reindexAll st0) (currentListing env cfg docs))
         \<and> documentsRemoved stats = length (removedPaths st0 (currentListing env cfg docs))
         \<and> chunksEmbedded stats
             = length (cacheMissesOf st0 (embeddingModelId cfg)
                 (concat (map (\<lambda>d. chunk env d cfg)
                    (filter (isChanged reindexAll st0) (currentListing env cfg docs)))))"
    using cache2
    by (simp add: stats misses_def cacheMissesOf_def staged_def changed_def listing_def m_def
        removed_def)
qed

lemma removedPaths_indexed: "p \<in> set (removedPaths st1 listing) \<Longrightarrow> indexedHash st1 p \<noteq> None"
  using removedPaths_iff by blast

lemma removedPaths_not_listed: "p \<in> set (removedPaths st1 listing) \<Longrightarrow> p \<notin> path ` set listing"
  using removedPaths_iff by blast

lemma removedPaths_empty:
  assumes gone: "\<And>p. p \<notin> path ` set listing \<Longrightarrow> indexedHash st1 p = None"
  shows "removedPaths st1 listing = []"
proof (rule ccontr)
  assume "removedPaths st1 listing \<noteq> []"
  then have mem: "hd (removedPaths st1 listing) \<in> set (removedPaths st1 listing)"
    by (rule hd_in_set)
  from removedPaths_indexed[OF mem] gone[OF removedPaths_not_listed[OF mem]] show False by simp
qed

lemma unchanged_not_changed_path:
  assumes "distinct (map path listing)" and "d \<in> set listing" and "\<not> P d"
  shows "path d \<notin> path ` set (filter P listing)"
proof
  assume "path d \<in> path ` set (filter P listing)"
  then obtain d' where d': "d' \<in> set listing" "P d'" "path d' = path d" by auto
  from assms(1) d'(1) assms(2) d'(3) have "d' = d" by (simp add: distinct_map inj_on_def)
  with d'(2) assms(3) show False by simp
qed

lemma listing_distinct:
  "distinct (map path docs) \<Longrightarrow> distinct (map path (currentListing env cfg docs))"
  by (simp add: currentListing_def distinct_map_filter)

lemma insertRows_Nil [simp]: "insertRows [] st = st"
  by (simp add: insertRows_def)

lemma isComplete_eval:
  "isComplete env cfg st d
     = list_all (\<lambda>c. list_ex (\<lambda>r. documentPath (rowChunk r) = path d
                               \<and> modelId r = embeddingModelId cfg \<and> rowChunk r = c) (store st))
         (chunk env d cfg)"
  by (auto simp: isComplete_def rowsOf_def list_all_iff list_ex_iff)

lemma chunk_docC: "chunk example_env docC example_cfg = [chunkOf ''C'' 0 2 ''cc'', chunkOf ''C'' 2 3 ''c'']"
  by (simp add: chunk_def example_env_def example_cfg_def docC_def chunkOf_def)

lemma run_example: "\<exists>stats st'. updateIndex example_env example_cfg False [docA, docC] indexed_AB = (Inr stats, st')"
  by (simp add: updateIndex_def selectIndexState_def diffAndIndex_def Let_def currentListing_def
      passesFilters_def isChanged_def
      indexedHash_def removedPaths_def indexed_AB_def docA_def docC_def example_cfg_def
      chunk_def cacheHitsOf_def cacheMissesOf_def List.map_filter_simps
      deleteRows_def dropHash_def insertRows_def commitComplete_def isComplete_def rowsOf_def
      setHash_def mkRow_def chunkOf_def embed_def cachePut_def example_env_def)

lemma example_listing:
  "currentListing example_env example_cfg [docA, docC] = [docA, docC]"
  by (simp add: currentListing_def passesFilters_def example_cfg_def)

lemma example_hashes:
  "indexedHash (selectIndexState example_cfg indexed_AB) ''A'' = Some ''h1''"
  "indexedHash (selectIndexState example_cfg indexed_AB) ''B'' = Some ''h2''"
  "indexedHash (selectIndexState example_cfg indexed_AB) ''C'' = None"
  by (simp_all add: selectIndexState_def indexedHash_def indexed_AB_def example_cfg_def)

lemma example_docs [simp]:
  "path docA = ''A''" "contentHash docA = ''h1''" "path docC = ''C''" "contentHash docC = ''h3''"
  by (simp_all add: docA_def docC_def)

subsection \<open>A change of the embedding model\<close>

text \<open>
  When the persisted IndexState is that of another embedding model, a run with
  \<open>reindexAll = false\<close> that completes treats every listed document as changed, although
  the content hashes are the recorded ones: each ends with exactly its fresh chunks as
  its rows, for the new model, and the gateway is called with the batches of all the
  chunks that the Embedding Cache has no vector of the new model for.
\<close>

lemma updateIndex_model_switch:
  assumes "distinct (map path docs)"
    and "indexModelId (indexState st) \<noteq> embeddingModelId cfg"
    and "updateIndex env cfg False docs st = (Inr stats, st')"
  shows "d \<in> set (currentListing env cfg docs) \<Longrightarrow>
           mset (map rowChunk (rowsOf (path d) st')) = mset (chunk env d cfg)
           \<and> (\<forall>r \<in> set (rowsOf (path d) st').
                 modelId r = embeddingModelId cfg
               \<and> vectorFrom env (embeddingModelId cfg) st st' r)
           \<and> indexedHash st' (path d) = Some (contentHash d)"
    and "embedLog st' = embedLog st
           @ batches (batchSize env)
               (cacheMissesOf st (embeddingModelId cfg)
                 (concat (map (\<lambda>d. chunk env d cfg) (currentListing env cfg docs))))"
    and "documentsChanged stats = length (currentListing env cfg docs)"
    and "indexModelId (indexState st') = embeddingModelId cfg"
proof -
  let ?s0 = "selectIndexState cfg st"
  from assms(3) have run: "diffAndIndex env cfg False docs ?s0 = (Inr stats, st')"
    by (simp add: updateIndex_def)
  note ms = diffAndIndex_success[OF run assms(1)]
  have all: "filter (isChanged False ?s0) (currentListing env cfg docs) = currentListing env cfg docs"
    using assms(2) by (simp add: isChanged_def indexedHash_selectIndexState)
  show "d \<in> set (currentListing env cfg docs) \<Longrightarrow>
           mset (map rowChunk (rowsOf (path d) st')) = mset (chunk env d cfg)
           \<and> (\<forall>r \<in> set (rowsOf (path d) st').
                 modelId r = embeddingModelId cfg
               \<and> vectorFrom env (embeddingModelId cfg) st st' r)
           \<and> indexedHash st' (path d) = Some (contentHash d)"
    using ms(1)[of d] unfolding all by simp
  show "embedLog st' = embedLog st
           @ batches (batchSize env)
               (cacheMissesOf st (embeddingModelId cfg)
                 (concat (map (\<lambda>d. chunk env d cfg) (currentListing env cfg docs))))"
    using ms(3) unfolding all by (simp add: cacheMissesOf_def)
  show "documentsChanged stats = length (currentListing env cfg docs)"
    using ms(5) unfolding all by simp
  show "indexModelId (indexState st') = embeddingModelId cfg" using ms(4) by simp
qed

text \<open>
  After the documents \<open>A\<close> and \<open>B\<close> have been indexed for the model \<open>m\<close>, a run for the
  model \<open>n\<close> on the document \<open>A\<close>, unchanged, hands both chunks of \<open>A\<close> to the gateway
  and replaces the rows of \<open>A\<close>.
\<close>

lemma model_switch_example:
  "\<exists>stats st'.
      updateIndex example_env switched_cfg False [docA] indexed_AB = (Inr stats, st')
    \<and> embedLog st'
        = embedLog indexed_AB @ [[chunkOf ''A'' 0 2 ''aa'', chunkOf ''A'' 2 4 ''aa'']]
    \<and> mset (map rowChunk (rowsOf ''A'' st'))
        = mset [chunkOf ''A'' 0 2 ''aa'', chunkOf ''A'' 2 4 ''aa'']
    \<and> (\<forall>r \<in> set (rowsOf ''A'' st'). modelId r = ''n'' \<and> vector r = [2, 2])
    \<and> indexedHash st' ''A'' = Some ''h1''
    \<and> indexModelId (indexState st') = ''n''
    \<and> documentsChanged stats = 1"
proof -
  let ?cs = "[chunkOf ''A'' 0 2 ''aa'', chunkOf ''A'' 2 4 ''aa'']"
  have "\<exists>stats st'. updateIndex example_env switched_cfg False [docA] indexed_AB = (Inr stats, st')"
    by (simp add: updateIndex_def selectIndexState_def diffAndIndex_def Let_def currentListing_def
      passesFilters_def isChanged_def
      indexedHash_def removedPaths_def indexed_AB_def docA_def switched_cfg_def
      chunk_def cacheHitsOf_def cacheMissesOf_def List.map_filter_simps
      deleteRows_def dropHash_def insertRows_def commitComplete_def isComplete_def rowsOf_def
      setHash_def mkRow_def chunkOf_def embed_def cachePut_def example_env_def)
  then obtain stats st'
    where run: "updateIndex example_env switched_cfg False [docA] indexed_AB = (Inr stats, st')"
    by blast
  have dist: "distinct (map path [docA])" by simp
  have switch: "indexModelId (indexState indexed_AB) \<noteq> embeddingModelId switched_cfg"
    by (simp add: indexed_AB_def switched_cfg_def)
  have listing: "currentListing example_env switched_cfg [docA] = [docA]"
    by (simp add: currentListing_def passesFilters_def switched_cfg_def)
  have n: "embeddingModelId switched_cfg = ''n''" by (simp add: switched_cfg_def)
  have chunks: "chunk example_env docA switched_cfg = ?cs"
    by (simp add: chunk_def example_env_def switched_cfg_def docA_def chunkOf_def)
  have misses: "cacheMissesOf indexed_AB ''n'' ?cs = ?cs"
    by (simp add: cacheMissesOf_def indexed_AB_def chunkOf_def)
  have bs: "batches (batchSize example_env) ?cs = [?cs]" by (simp add: example_env_def)
  have len: "length (embedLog indexed_AB) = 2" by (simp add: indexed_AB_def)
  note t = updateIndex_model_switch[OF dist switch run, unfolded listing n]
  have log: "embedLog st' = embedLog indexed_AB @ [?cs]"
    using t(2) by (simp only: list.map concat.simps append_Nil2 chunks misses bs)
  from t(1)[of docA] have a: "mset (map rowChunk (rowsOf ''A'' st')) = mset ?cs"
      "indexedHash st' ''A'' = Some ''h1''"
    and rows: "\<forall>r \<in> set (rowsOf ''A'' st').
                 modelId r = ''n'' \<and> vectorFrom example_env ''n'' indexed_AB st' r"
    by (simp_all add: chunks)
  have v: "modelId r = ''n'' \<and> vector r = [2, 2]" if r: "r \<in> set (rowsOf ''A'' st')" for r
  proof -
    have "rowChunk r \<in> set (map rowChunk (rowsOf ''A'' st'))" using r by simp
    also have "set (map rowChunk (rowsOf ''A'' st')) = set ?cs"
      using a(1) by (rule mset_eq_setD)
    finally have c: "rowChunk r \<in> set ?cs" .
    then have miss: "cache indexed_AB (chunkHash (rowChunk r), ''n'') = None"
      by (auto simp: indexed_AB_def chunkOf_def)
    from c have aa: "chunkText (rowChunk r) = ''aa''" by (auto simp: chunkOf_def)
    from rows r have model: "modelId r = ''n''"
      and from_run: "vectorFrom example_env ''n'' indexed_AB st' r" by blast+
    from from_run have "vector r = embedVector example_env 2 ''n'' (chunkText (rowChunk r))"
      by (simp add: vectorFrom_def miss log len)
    with model aa show ?thesis by (simp add: example_env_def)
  qed
  from run log a v t(3,4) show ?thesis by auto
qed

subsection \<open>Runs that complete, and runs that fail\<close>

text \<open>With a gateway that accepts every call, every run completes.\<close>

lemma embedBatches_completes:
  assumes "\<And>i. gatewayOutcome env i = None"
  shows "\<exists>ps st'. embedBatches env cfg changed done tot bs st = (Inr ps, st')"
proof (induction bs arbitrary: "done" st)
  case Nil then show ?case by simp
next
  case (Cons b bs)
  let ?m = "embeddingModelId cfg"
  let ?vs = "map (embedVector env (length (embedLog st)) ?m) (map chunkText b)"
  have vs: "embed env (length (embedLog st)) ?m (map chunkText b) = Inr ?vs"
    by (simp add: embed_def assms)
  define st4 where "st4 = commitComplete env cfg changed
      (fold (\<lambda>(c, v). cachePut (chunkHash c) ?m v) (zip b ?vs)
         (insertRows (map2 (mkRow ?m) b ?vs) (st\<lparr>embedLog := embedLog st @ [b]\<rparr>)))"
  from Cons.IH[of "done + length b" st4] obtain ps s
    where "embedBatches env cfg changed (done + length b) tot bs st4 = (Inr ps, s)" by blast
  then show ?case by (simp add: vs Let_def st4_def del: map_map)
qed

lemma updateIndex_completes:
  assumes "\<And>i. gatewayOutcome env i = None"
  shows "\<exists>stats st'. updateIndex env cfg reindexAll docs st = (Inr stats, st')"
proof -
  let ?s0 = "selectIndexState cfg st"
  define changed where "changed = filter (isChanged reindexAll ?s0) (currentListing env cfg docs)"
  define staged where "staged = concat (map (\<lambda>d. chunk env d cfg) changed)"
  define st2 where "st2 = fold (\<lambda>d s. deleteRows (path d) s) changed
      (fold (\<lambda>p s. dropHash p (deleteRows p s)) (removedPaths ?s0 (currentListing env cfg docs)) ?s0)"
  define hits where "hits = cacheHitsOf st2 (embeddingModelId cfg) staged"
  define st4 where "st4 = commitComplete env cfg changed
      (insertRows (map (\<lambda>(c, v). mkRow (embeddingModelId cfg) c v) hits) st2)"
  from embedBatches_completes[OF assms] obtain ps s where
    "embedBatches env cfg changed (length hits) (length staged)
       (batches (batchSize env) (cacheMissesOf st2 (embeddingModelId cfg) staged)) st4 = (Inr ps, s)"
    by blast
  then show ?thesis
    unfolding updateIndex_def diffAndIndex_def Let_def changed_def[symmetric] staged_def[symmetric]
      st2_def[symmetric] hits_def[symmetric] st4_def[symmetric]
    by simp
qed

text \<open>
  A run that fails: the rows of a path after the rollback are the rows from before the run
  when the path is that of a changed document whose chunk set was not complete, and the
  rows that the run left otherwise. The rollback touches nothing but the store.
\<close>

lemma rollback_proj [simp]:
  "cache (rollback env cfg changed prior st) = cache st"
  "indexState (rollback env cfg changed prior st) = indexState st"
  "embedLog (rollback env cfg changed prior st) = embedLog st"
proof -
  have "cache (fold (\<lambda>d s. if C d then s
                  else insertRows (rowsOf (path d) prior) (deleteRows (path d) s)) changed s0)
          = cache s0
      \<and> indexState (fold (\<lambda>d s. if C d then s
                  else insertRows (rowsOf (path d) prior) (deleteRows (path d) s)) changed s0)
          = indexState s0
      \<and> embedLog (fold (\<lambda>d s. if C d then s
                  else insertRows (rowsOf (path d) prior) (deleteRows (path d) s)) changed s0)
          = embedLog s0" for C s0
    by (induction changed arbitrary: s0) auto
  then show "cache (rollback env cfg changed prior st) = cache st"
    "indexState (rollback env cfg changed prior st) = indexState st"
    "embedLog (rollback env cfg changed prior st) = embedLog st"
    unfolding rollback_def by blast+
qed

lemma rowsOf_insertRows:
  "rowsOf p (insertRows rs st) = rowsOf p st @ filter (\<lambda>r. documentPath (rowChunk r) = p) rs"
  by (simp add: rowsOf_def insertRows_def)

lemma filter_rowsOf:
  "filter (\<lambda>r. documentPath (rowChunk r) = p) (rowsOf q st) = (if p = q then rowsOf q st else [])"
  by (auto simp: rowsOf_def filter_empty_conv intro: filter_True)

lemma rollback_rows:
  assumes "distinct (map path changed)"
  shows "rowsOf p (rollback env cfg changed prior st)
           = (if \<exists>d \<in> set changed. path d = p \<and> \<not> isComplete env cfg st d then rowsOf p prior
              else rowsOf p st)"
proof -
  have "rowsOf p (fold (\<lambda>d s. if C d then s
                  else insertRows (rowsOf (path d) prior) (deleteRows (path d) s)) changed s0)
          = (if \<exists>d \<in> set changed. path d = p \<and> \<not> C d then rowsOf p prior else rowsOf p s0)"
    for C s0
    using assms
  proof (induction changed arbitrary: s0)
    case Nil then show ?case by simp
  next
    case (Cons x xs)
    from Cons.prems have dist: "distinct (map path xs)" and fresh: "\<forall>d \<in> set xs. path d \<noteq> path x"
      by (auto simp: image_iff)
    show ?case
    proof (cases "C x")
      case True
      then show ?thesis using Cons.IH[OF dist, of s0] by auto
    next
      case False
      let ?s1 = "insertRows (rowsOf (path x) prior) (deleteRows (path x) s0)"
      have s1: "rowsOf q ?s1 = (if q = path x then rowsOf q prior else rowsOf q s0)" for q
        by (simp add: rowsOf_insertRows filter_rowsOf)
      show ?thesis using Cons.IH[OF dist, of ?s1] False fresh by (auto simp: s1)
    qed
  qed
  then show ?thesis unfolding rollback_def by blast
qed

lemma diffAndIndex_failure:
  assumes run: "diffAndIndex env cfg reindexAll docs st0 = (Inl e, st')"
    and dist: "distinct (map path docs)"
  shows "d \<in> set (filter (isChanged reindexAll st0) (currentListing env cfg docs)) \<Longrightarrow>
           (rowsOf (path d) st' = rowsOf (path d) st0
              \<and> indexedHash st' (path d) = indexedHash st0 (path d))
           \<or> (isComplete env cfg st' d \<and> indexedHash st' (path d) = Some (contentHash d))"
    and "p \<notin> path ` set (filter (isChanged reindexAll st0) (currentListing env cfg docs)) \<Longrightarrow>
           rowsOf p st' = (if p \<in> set (removedPaths st0 (currentListing env cfg docs)) then []
                           else rowsOf p st0)
           \<and> indexedHash st' p = (if p \<in> set (removedPaths st0 (currentListing env cfg docs)) then None
                           else indexedHash st0 p)"
proof -
  define listing where "listing = currentListing env cfg docs"
  define changed where "changed = filter (isChanged reindexAll st0) listing"
  define removed where "removed = removedPaths st0 listing"
  define st1 where "st1 = fold (\<lambda>p s. dropHash p (deleteRows p s)) removed st0"
  define staged where "staged = concat (map (\<lambda>d. chunk env d cfg) changed)"
  define st2 where "st2 = fold (\<lambda>d s. deleteRows (path d) s) changed st1"
  define m where "m = embeddingModelId cfg"
  define hits where "hits = cacheHitsOf st2 m staged"
  define misses where "misses = cacheMissesOf st2 m staged"
  define st3 where "st3 = insertRows (map (\<lambda>(c, v). mkRow m c v) hits) st2"
  define st4 where "st4 = commitComplete env cfg changed st3"
  define bs where "bs = batches (batchSize env) misses"
  from run obtain st5 where eb:
    "embedBatches env cfg changed (length hits) (length staged) bs st4 = (Inl e, st5)"
    and st': "st' = rollback env cfg changed st0 st5"
    unfolding diffAndIndex_def Let_def listing_def[symmetric] changed_def[symmetric]
      removed_def[symmetric] st1_def[symmetric] staged_def[symmetric] st2_def[symmetric]
      m_def[symmetric] hits_def[symmetric] misses_def[symmetric] st3_def[symmetric]
      st4_def[symmetric] bs_def[symmetric]
    by (auto split: prod.splits sum.splits)
  have distl: "distinct (map path listing)"
    using dist by (simp add: listing_def currentListing_def distinct_map_filter)
  have distc: "distinct (map path changed)"
    using distl by (simp add: changed_def distinct_map_filter)
  have hash': "indexedHash st' = indexedHash st5" by (simp add: st' indexedHash_def fun_eq_iff)
  from embedBatches_store[OF eb] obtain rows where rows: "store st5 = store st4 @ rows"
    "set (map rowChunk rows) \<subseteq> set (concat bs)" by blast
  let ?hr = "map (\<lambda>(c, v). mkRow m c v) hits"
  have store5: "store st5 = store st2 @ (?hr @ rows)" using rows(1) by (simp add: st4_def st3_def)
  have rowsOf2: "rowsOf p st2 = (if p \<in> path ` set changed then []
                               else if p \<in> set removed then [] else rowsOf p st0)" for p
    by (simp add: st2_def st1_def fold_changed fold_removed)
  have new_paths: "documentPath (rowChunk r) \<in> path ` set changed" if "r \<in> set (?hr @ rows)" for r
  proof -
    have hr: "map rowChunk ?hr = map fst hits" by (rule hit_rows(1))
    have "rowChunk r \<in> rowChunk ` set (?hr @ rows)" using that by (rule imageI)
    then have "rowChunk r \<in> set (map rowChunk (?hr @ rows))" by (simp only: set_map)
    then have "rowChunk r \<in> set (map rowChunk ?hr) \<union> set (map rowChunk rows)"
      by (simp only: map_append set_append)
    then have "rowChunk r \<in> set (map fst hits) \<union> set (concat bs)"
      unfolding hr using rows(2) by blast
    then have "rowChunk r \<in> set (map fst hits) \<union> set misses"
      by (simp only: bs_def concat_batches)
    then have "rowChunk r \<in> set staged"
      by (auto simp: hits_def misses_def map_fst_cacheHitsOf cacheMissesOf_def)
    then show ?thesis unfolding staged_def by (rule staged_path)
  qed
  {
    fix d assume "d \<in> set (filter (isChanged reindexAll st0) (currentListing env cfg docs))"
    then have d: "d \<in> set changed" by (simp add: changed_def listing_def)
    then have dl: "d \<in> set listing" by (simp add: changed_def)
    have only: "d' = d" if "d' \<in> set changed" "path d' = path d" for d'
      using distc that d by (simp add: distinct_map inj_on_def)
    show "(rowsOf (path d) st' = rowsOf (path d) st0
              \<and> indexedHash st' (path d) = indexedHash st0 (path d))
           \<or> (isComplete env cfg st' d \<and> indexedHash st' (path d) = Some (contentHash d))"
    proof (cases "isComplete env cfg st5 d")
      case True
      have "rowsOf (path d) st' = rowsOf (path d) st5"
        unfolding st' rollback_rows[OF distc] using True only by auto
      then have "isComplete env cfg st' d" using True isComplete_rows_cong by blast
      moreover have "allCommitted env cfg changed st5"
        by (rule embedBatches_committed[OF distc eb])
           (simp add: st4_def allCommitted_commit[OF distc])
      then have "indexedHash st5 (path d) = Some (contentHash d)"
        using True d by (simp add: allCommitted_def)
      ultimately show ?thesis by (simp add: hash')
    next
      case False
      have r: "rowsOf (path d) st' = rowsOf (path d) st0"
        unfolding st' rollback_rows[OF distc] using False d by auto
      have "store st5 = store st3 @ rows" using rows(1) by (simp add: st4_def)
      then have n3: "\<not> isComplete env cfg st3 d" using False isComplete_mono by blast
      have "path d \<notin> set removed" using dl by (simp add: removed_def removedPaths_iff)
      then have h3: "indexedHash st3 (path d) = indexedHash st0 (path d)"
        by (simp add: st3_def st2_def st1_def fold_changed fold_removed)
      have "indexedHash st4 (path d) = indexedHash st0 (path d)"
        unfolding st4_def commitComplete_hash[OF distc d] using n3 h3 by simp
      moreover from embedBatches_hash[OF distc d eb] False
      have "indexedHash st5 (path d) = indexedHash st4 (path d)" by blast
      ultimately show ?thesis using r by (simp add: hash')
    qed
  }
  {
    assume "p \<notin> path ` set (filter (isChanged reindexAll st0) (currentListing env cfg docs))"
    then have p: "p \<notin> path ` set changed" by (simp add: changed_def listing_def)
    have "\<forall>r \<in> set (?hr @ rows). documentPath (rowChunk r) \<noteq> p"
      using new_paths p by blast
    then have "filter (\<lambda>r. documentPath (rowChunk r) = p) (?hr @ rows) = []"
      by (simp only: filter_empty_conv)
    then have "rowsOf p st5 = rowsOf p st2" using rowsOf_append[OF store5, of p] by simp
    moreover have "rowsOf p st' = rowsOf p st5"
      unfolding st' rollback_rows[OF distc] using p by auto
    ultimately have a: "rowsOf p st' = (if p \<in> set removed then [] else rowsOf p st0)"
      using rowsOf2[of p] p by simp
    have "indexedHash st4 p = (if p \<in> set removed then None else indexedHash st0 p)"
      by (simp add: st4_def st3_def st2_def st1_def commitComplete_other[OF p] fold_changed fold_removed)
    then have b: "indexedHash st' p = (if p \<in> set removed then None else indexedHash st0 p)"
      using embedBatches_other[OF eb p] by (simp add: hash')
    from a b show "rowsOf p st' = (if p \<in> set (removedPaths st0 (currentListing env cfg docs)) then []
                           else rowsOf p st0)
           \<and> indexedHash st' p = (if p \<in> set (removedPaths st0 (currentListing env cfg docs)) then None
                           else indexedHash st0 p)"
      by (simp add: removed_def listing_def)
  }
qed

text \<open>
  A run that fails is atomic for every document: a listed document either has the rows
  and the recorded hash it had before the run, or it has its complete chunk set stored
  for the active model and its hash recorded.
\<close>

lemma updateIndex_failure:
  assumes "distinct (map path docs)"
    and "updateIndex env cfg reindexAll docs st = (Inl e, st')"
    and "d \<in> set (currentListing env cfg docs)"
  shows "(rowsOf (path d) st' = rowsOf (path d) st
            \<and> indexedHash st' (path d) = indexedHash (selectIndexState cfg st) (path d))
         \<or> (isComplete env cfg st' d \<and> indexedHash st' (path d) = Some (contentHash d))"
proof -
  let ?s0 = "selectIndexState cfg st"
  let ?listing = "currentListing env cfg docs"
  from assms(2) have run: "diffAndIndex env cfg reindexAll docs ?s0 = (Inl e, st')"
    by (simp add: updateIndex_def)
  note f = diffAndIndex_failure[OF run assms(1)]
  have dl: "distinct (map path ?listing)" by (rule listing_distinct[OF assms(1)])
  show ?thesis
  proof (cases "isChanged reindexAll ?s0 d")
    case True
    then show ?thesis using f(1)[of d] assms(3) by simp
  next
    case False
    have "path d \<notin> path ` set (filter (isChanged reindexAll ?s0) ?listing)"
      by (rule unchanged_not_changed_path[where P = "isChanged reindexAll ?s0", OF dl assms(3) False])
    moreover have "path d \<notin> set (removedPaths ?s0 ?listing)"
      using assms(3) by (simp add: removedPaths_iff)
    ultimately show ?thesis using f(2)[of "path d"] by simp
  qed
qed

text \<open>
  After the documents \<open>A\<close> and \<open>B\<close> have been indexed, \<open>A\<close> is edited and the gateway
  rejects every call. The run fails: its one call is logged, and \<open>A\<close>, whose new chunk
  could not be embedded, keeps the rows and the hash it had, so that the next run treats
  it as changed again.
\<close>

lemma failed_run_example:
  "\<exists>st'. updateIndex failing_env example_cfg False [docA_edited] indexed_AB
             = (Inl EmbeddingAuthOrConfig, st')
        \<and> embedLog st' = embedLog indexed_AB @ [[chunkOf ''A'' 2 4 ''xx'']]
        \<and> rowsOf ''A'' st' = rowsOf ''A'' indexed_AB
        \<and> indexedHash st' ''A'' = Some ''h1''
        \<and> isChanged False (selectIndexState example_cfg st') docA_edited"
  by (simp add: updateIndex_def selectIndexState_def diffAndIndex_def rollback_def Let_def
      currentListing_def passesFilters_def isChanged_def
      indexedHash_def removedPaths_def indexed_AB_def docA_edited_def example_cfg_def
      chunk_def cacheHitsOf_def cacheMissesOf_def List.map_filter_simps
      deleteRows_def dropHash_def insertRows_def commitComplete_def isComplete_eval rowsOf_def
      setHash_def mkRow_def chunkOf_def embed_def cachePut_def example_env_def failing_env_def)

section \<open>The engine model: results\<close>

text \<open>
  C2. On the model of \<open>updateIndex\<close>, for every prior state and every listing with
  distinct paths, a run with \<open>reindexAll = false\<close> that completes does the following,
  where the recorded hash of a path is the one in \<open>lastIndexedHash\<close> of the IndexState
  instance of the active vault-model pair (none at all when the persisted instance is that
  of another embedding model).

  \<^item> A listed document whose recorded hash is absent or differs from its content hash is
    changed: it ends with exactly its fresh chunks as its rows, every one of them for the
    active model and with the vector of the Embedding Cache or, on a cache miss, the
    vector that the gateway returned in this run for the chunk's text; its hash is
    recorded.
  \<^item> A listed document whose recorded hash is its content hash is unchanged: its rows are
    the same list after the run as before, and its hash stays.
  \<^item> A path with a recorded hash that is absent from the listing is removed: it ends with
    no rows and without a recorded hash. Every other path absent from the listing keeps
    its rows.
  \<^item> The gateway is called with exactly the batches of the cache misses among the chunks
    of the changed documents, in order, and with nothing else; the stats count the
    changed and the removed documents and the embedded chunks.
\<close>

theorem updateIndex_diff:
  assumes "distinct (map path docs)"
    and "updateIndex env cfg False docs st = (Inr stats, st')"
  shows "(\<forall>d \<in> set (currentListing env cfg docs).
            (indexedHash (selectIndexState cfg st) (path d) \<noteq> Some (contentHash d) \<longrightarrow>
                mset (map rowChunk (rowsOf (path d) st')) = mset (chunk env d cfg)
              \<and> (\<forall>r \<in> set (rowsOf (path d) st').
                    modelId r = embeddingModelId cfg
                  \<and> vectorFrom env (embeddingModelId cfg) st st' r)
              \<and> indexedHash st' (path d) = Some (contentHash d))
          \<and> (indexedHash (selectIndexState cfg st) (path d) = Some (contentHash d) \<longrightarrow>
                rowsOf (path d) st' = rowsOf (path d) st
              \<and> indexedHash st' (path d) = Some (contentHash d)))
       \<and> (\<forall>p. p \<notin> path ` set (currentListing env cfg docs) \<longrightarrow>
              (indexedHash (selectIndexState cfg st) p \<noteq> None \<longrightarrow>
                 rowsOf p st' = [] \<and> indexedHash st' p = None)
            \<and> (indexedHash (selectIndexState cfg st) p = None \<longrightarrow>
                 rowsOf p st' = rowsOf p st \<and> indexedHash st' p = None))
       \<and> embedLog st' = embedLog st
           @ batches (batchSize env)
               (cacheMissesOf st (embeddingModelId cfg)
                 (concat (map (\<lambda>d. chunk env d cfg)
                    (filter (\<lambda>d. indexedHash (selectIndexState cfg st) (path d)
                                   \<noteq> Some (contentHash d))
                       (currentListing env cfg docs)))))
       \<and> indexModelId (indexState st') = embeddingModelId cfg
       \<and> documentsChanged stats
           = length (filter (\<lambda>d. indexedHash (selectIndexState cfg st) (path d)
                                   \<noteq> Some (contentHash d))
                       (currentListing env cfg docs))
       \<and> documentsRemoved stats
           = length (filter (\<lambda>p. p \<notin> path ` set (currentListing env cfg docs))
                       (map fst (lastIndexedHash (indexState (selectIndexState cfg st)))))
       \<and> chunksEmbedded stats
           = length (concat (drop (length (embedLog st)) (embedLog st')))"
proof -
  let ?s0 = "selectIndexState cfg st"
  let ?listing = "currentListing env cfg docs"
  let ?changed = "filter (isChanged False ?s0) ?listing"
  let ?P = "\<lambda>d. indexedHash ?s0 (path d) \<noteq> Some (contentHash d)"
  from assms(2) have run: "diffAndIndex env cfg False docs ?s0 = (Inr stats, st')"
    by (simp add: updateIndex_def)
  note ms = diffAndIndex_success[OF run assms(1)]
  have dl: "distinct (map path ?listing)" by (rule listing_distinct[OF assms(1)])
  have chg: "isChanged False ?s0 = ?P" by (simp add: isChanged_def fun_eq_iff)
  have A: "mset (map rowChunk (rowsOf (path d) st')) = mset (chunk env d cfg)
              \<and> (\<forall>r \<in> set (rowsOf (path d) st').
                    modelId r = embeddingModelId cfg
                  \<and> vectorFrom env (embeddingModelId cfg) st st' r)
              \<and> indexedHash st' (path d) = Some (contentHash d)"
    if "d \<in> set ?listing" "?P d" for d
    using ms(1)[of d] that by (simp add: chg)
  have B: "rowsOf (path d) st' = rowsOf (path d) st \<and> indexedHash st' (path d) = Some (contentHash d)"
    if d: "d \<in> set ?listing" and u: "indexedHash ?s0 (path d) = Some (contentHash d)" for d
  proof -
    have nc: "\<not> isChanged False ?s0 d" using u by (simp add: isChanged_def)
    have "path d \<notin> path ` set ?changed"
      by (rule unchanged_not_changed_path[where P = "isChanged False ?s0", OF dl d nc])
    moreover have "path d \<notin> set (removedPaths ?s0 ?listing)" using d by (simp add: removedPaths_iff)
    ultimately show ?thesis using ms(2)[of "path d"] u by simp
  qed
  have C: "(indexedHash ?s0 p \<noteq> None \<longrightarrow> rowsOf p st' = [] \<and> indexedHash st' p = None)
         \<and> (indexedHash ?s0 p = None \<longrightarrow> rowsOf p st' = rowsOf p st \<and> indexedHash st' p = None)"
    if "p \<notin> path ` set ?listing" for p
  proof -
    have "p \<notin> path ` set ?changed" using that by auto
    from ms(2)[OF this] that show ?thesis by (simp add: removedPaths_iff)
  qed
  have D: "embedLog st' = embedLog st
           @ batches (batchSize env)
               (cacheMissesOf st (embeddingModelId cfg)
                 (concat (map (\<lambda>d. chunk env d cfg) (filter ?P ?listing))))"
    using ms(3) by (simp add: chg cacheMissesOf_def)
  have E: "indexModelId (indexState st') = embeddingModelId cfg"
    using ms(4) by simp
  have F: "documentsChanged stats = length (filter ?P ?listing)"
    using ms(5) by (simp add: chg)
  have G: "documentsRemoved stats
           = length (filter (\<lambda>p. p \<notin> path ` set ?listing)
                       (map fst (lastIndexedHash (indexState ?s0))))"
    using ms(5) by (simp add: removedPaths_def)
  have H: "chunksEmbedded stats = length (concat (drop (length (embedLog st)) (embedLog st')))"
    using ms(5) unfolding D by (simp add: chg cacheMissesOf_def concat_batches del: length_concat)
  from A B C D E F G H show ?thesis by blast
qed

theorem updateIndex_diff_witness:
  "distinct (map path [docA, docC])
   \<and> (\<exists>stats st'.
        updateIndex example_env example_cfg False [docA, docC] indexed_AB = (Inr stats, st')
      \<and> rowsOf ''A'' st' = rowsOf ''A'' indexed_AB
      \<and> indexedHash st' ''A'' = Some ''h1''
      \<and> rowsOf ''B'' st' = []
      \<and> indexedHash st' ''B'' = None
      \<and> mset (map rowChunk (rowsOf ''C'' st'))
          = mset [chunkOf ''C'' 0 2 ''cc'', chunkOf ''C'' 2 3 ''c'']
      \<and> (\<forall>r \<in> set (rowsOf ''C'' st').
            modelId r = ''m'' \<and> vector r = [real (length (chunkText (rowChunk r))), 2])
      \<and> indexedHash st' ''C'' = Some ''h3''
      \<and> embedLog st'
          = embedLog indexed_AB @ [[chunkOf ''C'' 0 2 ''cc'', chunkOf ''C'' 2 3 ''c'']]
      \<and> documentsChanged stats = 1
      \<and> documentsRemoved stats = 1
      \<and> chunksEmbedded stats = 2)"
proof -
  let ?s0 = "selectIndexState example_cfg indexed_AB"
  let ?P = "\<lambda>d. indexedHash ?s0 (path d) \<noteq> Some (contentHash d)"
  let ?cs = "[chunkOf ''C'' 0 2 ''cc'', chunkOf ''C'' 2 3 ''c'']"
  have dist: "distinct (map path [docA, docC])" by simp
  from run_example obtain stats st'
    where run: "updateIndex example_env example_cfg False [docA, docC] indexed_AB = (Inr stats, st')"
    by blast
  have changed: "filter ?P [docA, docC] = [docC]" by (simp add: example_hashes)
  have m: "embeddingModelId example_cfg = ''m''" by (simp add: example_cfg_def)
  have misses: "cacheMissesOf indexed_AB ''m'' ?cs = ?cs"
    by (simp add: cacheMissesOf_def indexed_AB_def chunkOf_def)
  have bs: "batches (batchSize example_env) ?cs = [?cs]" by (simp add: example_env_def)
  have len: "length (embedLog indexed_AB) = 2" by (simp add: indexed_AB_def)
  have recorded: "map fst (lastIndexedHash (indexState ?s0)) = [''B'', ''A'']"
    by (simp add: selectIndexState_def indexed_AB_def example_cfg_def)
  note t = updateIndex_diff[OF dist run, unfolded example_listing changed m]
  from t have docs: "\<forall>d \<in> set [docA, docC].
            (?P d \<longrightarrow>
                mset (map rowChunk (rowsOf (path d) st')) = mset (chunk example_env d example_cfg)
              \<and> (\<forall>r \<in> set (rowsOf (path d) st').
                    modelId r = ''m'' \<and> vectorFrom example_env ''m'' indexed_AB st' r)
              \<and> indexedHash st' (path d) = Some (contentHash d))
          \<and> (indexedHash ?s0 (path d) = Some (contentHash d) \<longrightarrow>
                rowsOf (path d) st' = rowsOf (path d) indexed_AB
              \<and> indexedHash st' (path d) = Some (contentHash d))"
    and gone: "\<forall>p. p \<notin> path ` set [docA, docC] \<longrightarrow>
              (indexedHash ?s0 p \<noteq> None \<longrightarrow> rowsOf p st' = [] \<and> indexedHash st' p = None)
            \<and> (indexedHash ?s0 p = None \<longrightarrow>
                 rowsOf p st' = rowsOf p indexed_AB \<and> indexedHash st' p = None)"
    and log: "embedLog st' = embedLog indexed_AB
           @ batches (batchSize example_env)
               (cacheMissesOf indexed_AB ''m''
                 (concat (map (\<lambda>d. chunk example_env d example_cfg) [docC])))"
    and stats: "documentsChanged stats = length [docC]"
      "documentsRemoved stats
         = length (filter (\<lambda>p. p \<notin> path ` set [docA, docC])
                     (map fst (lastIndexedHash (indexState ?s0))))"
      "chunksEmbedded stats = length (concat (drop (length (embedLog indexed_AB)) (embedLog st')))"
    by blast+
  have log': "embedLog st' = embedLog indexed_AB @ [?cs]"
    using log by (simp only: list.map concat.simps append_Nil2 chunk_docC misses bs)
  from docs have a: "rowsOf ''A'' st' = rowsOf ''A'' indexed_AB" "indexedHash st' ''A'' = Some ''h1''"
    by (simp_all add: example_hashes)
  from docs have c: "mset (map rowChunk (rowsOf ''C'' st')) = mset ?cs"
      "indexedHash st' ''C'' = Some ''h3''"
    and rows: "\<forall>r \<in> set (rowsOf ''C'' st').
                 modelId r = ''m'' \<and> vectorFrom example_env ''m'' indexed_AB st' r"
    by (simp_all add: example_hashes chunk_docC)
  have v: "modelId r = ''m'' \<and> vector r = [real (length (chunkText (rowChunk r))), 2]"
    if r: "r \<in> set (rowsOf ''C'' st')" for r
  proof -
    have "rowChunk r \<in> set (map rowChunk (rowsOf ''C'' st'))" using r by simp
    also have "set (map rowChunk (rowsOf ''C'' st')) = set ?cs"
      using c(1) by (rule mset_eq_setD)
    finally have miss: "cache indexed_AB (chunkHash (rowChunk r), ''m'') = None"
      by (auto simp: indexed_AB_def chunkOf_def)
    from rows r have model: "modelId r = ''m''"
      and from_run: "vectorFrom example_env ''m'' indexed_AB st' r" by blast+
    from from_run have "vector r = embedVector example_env 2 ''m'' (chunkText (rowChunk r))"
      by (simp add: vectorFrom_def miss log' len)
    with model show ?thesis by (simp add: example_env_def)
  qed
  from gone have b: "rowsOf ''B'' st' = []" "indexedHash st' ''B'' = None"
    by (simp_all add: example_hashes)
  have s: "documentsChanged stats = 1" "documentsRemoved stats = 1" "chunksEmbedded stats = 2"
    using stats by (simp_all add: recorded log' len)
  from dist run a b c v log' s show ?thesis by blast
qed

text \<open>
  C4. On the model of \<open>updateIndex\<close>, after any run that completes on a listing with
  distinct paths, a second run with \<open>reindexAll = false\<close> on the same documents completes,
  hands no batch to the gateway, stages no chunk (its cache hit rate is 100%), and leaves
  the index state and the store as they were.
\<close>

theorem updateIndex_idempotent:
  assumes "distinct (map path docs)"
    and "updateIndex env cfg reindexAll docs st = (Inr stats1, st1)"
  shows "\<exists>stats2 st2. updateIndex env cfg False docs st1 = (Inr stats2, st2)
           \<and> embedLog st2 = embedLog st1
           \<and> indexState st2 = indexState st1
           \<and> store st2 = store st1
           \<and> chunksEmbedded stats2 = 0
           \<and> stagedChunks stats2 = 0
           \<and> cacheHitRate stats2 = 1"
proof -
  let ?s0 = "selectIndexState cfg st"
  let ?listing = "currentListing env cfg docs"
  let ?changed = "filter (isChanged reindexAll ?s0) ?listing"
  from assms(2) have run: "diffAndIndex env cfg reindexAll docs ?s0 = (Inr stats1, st1)"
    by (simp add: updateIndex_def)
  note ms = diffAndIndex_success[OF run assms(1)]
  have dl: "distinct (map path ?listing)" by (rule listing_distinct[OF assms(1)])
  have cur: "indexedHash st1 (path d) = Some (contentHash d)" if d: "d \<in> set ?listing" for d
  proof (cases "isChanged reindexAll ?s0 d")
    case True
    then show ?thesis using ms(1)[of d] d by simp
  next
    case False
    have "path d \<notin> path ` set ?changed"
      by (rule unchanged_not_changed_path[where P = "isChanged reindexAll ?s0", OF dl d False])
    moreover have "path d \<notin> set (removedPaths ?s0 ?listing)" using d by (simp add: removedPaths_iff)
    ultimately show ?thesis using ms(2)[of "path d"] False by (simp add: isChanged_def)
  qed
  have gone: "indexedHash st1 p = None" if p: "p \<notin> path ` set ?listing" for p
  proof -
    have "p \<notin> path ` set ?changed" using p by auto
    then show ?thesis using ms(2)[of p] p by (auto simp: removedPaths_iff)
  qed
  have "indexModelId (indexState st1) = embeddingModelId cfg" using ms(4) by simp
  then have same: "selectIndexState cfg st1 = st1" by (rule selectIndexState_same)
  have nochange: "filter (isChanged False st1) ?listing = []"
    using cur by (auto simp: filter_empty_conv isChanged_def)
  have noremoved: "removedPaths st1 ?listing = []"
    by (rule removedPaths_empty) (rule gone)
  have "updateIndex env cfg False docs st1
      = (Inr \<lparr>documentsScanned = length ?listing, documentsChanged = 0, documentsRemoved = 0,
              chunksEmbedded = 0, cacheHits = 0, stagedChunks = 0\<rparr>, st1)"
    unfolding updateIndex_def same diffAndIndex_def Let_def nochange noremoved
    by (simp add: cacheHitsOf_def cacheMissesOf_def List.map_filter_simps commitComplete_def)
  then show ?thesis by (simp add: cacheHitRate_def)
qed

theorem updateIndex_idempotent_witness:
  "distinct (map path [docA, docC])
   \<and> (\<exists>stats1 st1 stats2 st2.
        updateIndex example_env example_cfg False [docA, docC] indexed_AB = (Inr stats1, st1)
      \<and> updateIndex example_env example_cfg False [docA, docC] st1 = (Inr stats2, st2)
      \<and> embedLog st2 = embedLog st1
      \<and> indexState st2 = indexState st1
      \<and> store st2 = store st1
      \<and> chunksEmbedded stats2 = 0
      \<and> cacheHitRate stats2 = 1)"
proof -
  have dist: "distinct (map path [docA, docC])" by simp
  from run_example obtain stats1 st1
    where run: "updateIndex example_env example_cfg False [docA, docC] indexed_AB = (Inr stats1, st1)"
    by blast
  from updateIndex_idempotent[OF dist run] dist run show ?thesis by blast
qed

end
